theory Spec2Isabelle
  imports Complex_Main "HOL-Library.Sublist" "HOL-Library.Multiset"
    "HOL-Library.Char_ord" "HOL-Library.List_Lexorder"
begin

section \<open>Data model (types.ts)\<close>

text \<open>
  A JavaScript string is a sequence of UTF-16 code units. The model keeps the strings whose
  code units are below 256 (Latin-1, which covers the whole catalog), one \<^typ>\<open>char\<close> per
  code unit.
\<close>

datatype DocCategory = SETUP | CORE | MULTIMODAL | ADVANCED | SCHEMAS

text \<open>The string value of each member of the string enum \<open>DocCategory\<close>.\<close>

fun category_value :: "DocCategory \<Rightarrow> string" where
  "category_value SETUP = ''SETUP''"
| "category_value CORE = ''CORE''"
| "category_value MULTIMODAL = ''MULTIMODAL''"
| "category_value ADVANCED = ''ADVANCED''"
| "category_value SCHEMAS = ''SCHEMAS''"

datatype ExecutionPattern = SYNC | ASYNC | STREAM | LONG_POLLING | SETUP_PATTERN

record LaunchConfig =
  entry_point :: string
  required_params :: "string list"
  optional_params :: "string list"
  execution_pattern :: ExecutionPattern
  output_type :: string

text \<open>The field \<open>id\<close> of the source is \<open>id_doc\<close> here (\<open>id\<close> is the identity function of HOL).\<close>

record ReferenceDoc =
  id_doc :: string
  category :: DocCategory
  title :: string
  description :: string
  modelTarget :: string
  explanation :: string
  codeSnippet :: string
  launch :: LaunchConfig

datatype LogStatus = ACCESS | COPY | INFO

datatype Layer = UI | DATABASE

section \<open>String primitives of the platform\<close>

text \<open>
  \<open>String.prototype.toLowerCase\<close> on Latin-1 code units: the upper-case letters are
  \<open>A\<close>..\<open>Z\<close> (65..90) and U+00C0..U+00DE without the multiplication sign U+00D7; each maps
  to the code unit 32 above it. Every other code unit below 256 is its own lower case.
\<close>

definition lower_unit :: "char \<Rightarrow> char" where
  "lower_unit c =
     (let n = (of_char c :: nat)
      in if (65 \<le> n \<and> n \<le> 90) \<or> (192 \<le> n \<and> n \<le> 214) \<or> (216 \<le> n \<and> n \<le> 222)
         then char_of (n + 32) else c)"

definition toLowerCase :: "string \<Rightarrow> string" where
  "toLowerCase s = map lower_unit s"

text \<open>
  \<open>s.includes(t)\<close>: whether \<open>t\<close> occurs in \<open>s\<close> at some position, found by trying each
  start position from the left; \<open>startsWith\<close> compares the code units at one position.
\<close>

fun startsWith :: "string \<Rightarrow> string \<Rightarrow> bool" where
  "startsWith s [] = True"
| "startsWith [] (c # t) = False"
| "startsWith (d # s) (c # t) = (d = c \<and> startsWith s t)"

fun includes_str :: "string \<Rightarrow> string \<Rightarrow> bool" where
  "includes_str [] t = startsWith [] t"
| "includes_str (d # s) t = (startsWith (d # s) t \<or> includes_str s t)"

section \<open>Catalog queries (App.tsx, services)\<close>

text \<open>
  \<open>filteredDocs\<close> of \<open>App\<close>: \<open>KNOWLEDGE_BASE.filter(doc => ...)\<close> with the search term lower-cased
  and looked for in the lower-cased title, category value and id. The catalog is a parameter.
\<close>

definition doc_matches :: "string \<Rightarrow> ReferenceDoc \<Rightarrow> bool" where
  "doc_matches searchTerm doc =
     (let term = toLowerCase searchTerm
      in includes_str (toLowerCase (title doc)) term \<or>
         includes_str (toLowerCase (category_value (category doc))) term \<or>
         includes_str (toLowerCase (id_doc doc)) term)"

definition filteredDocs :: "ReferenceDoc list \<Rightarrow> string \<Rightarrow> ReferenceDoc list" where
  "filteredDocs KNOWLEDGE_BASE searchTerm = filter (doc_matches searchTerm) KNOWLEDGE_BASE"

text \<open>
  \<open>getDocById\<close>: \<open>docs.find(d => d.id === id)\<close>, the first entry with that id, or
  \<open>undefined\<close> (here \<open>None\<close>) when there is none.
\<close>

definition getDocById :: "ReferenceDoc list \<Rightarrow> string \<Rightarrow> ReferenceDoc option" where
  "getDocById docs i = find (\<lambda>d. id_doc d = i) docs"

text \<open>
  What the specification means by a term being, case-insensitively, a substring of a field:
  the lower-cased term occurs somewhere inside the lower-cased field.
\<close>

definition ci_substring :: "string \<Rightarrow> string \<Rightarrow> bool" where
  "ci_substring t field = (\<exists>before after. toLowerCase field = before @ toLowerCase t @ after)"

text \<open>The first two entries of \<open>KNOWLEDGE_BASE\<close> (constants.ts), to run the queries on.\<close>

definition client_initialization :: ReferenceDoc where
  "client_initialization =
     \<lparr>id_doc = ''client-initialization'', category = SETUP, title = ''Client Initialization'',
      description = ''Instantiate the GoogleGenAI client.'', modelTarget = ''N/A'',
      explanation = ''The GoogleGenAI client must be initialized with a single configuration object containing the API key. The key must be retrieved strictly from the environment variable process.env.API_KEY. Do not pass the key as a plain string argument.'',
      codeSnippet = ''import { GoogleGenAI } from \"@google/genai\";\<newline>\<newline>const ai = new GoogleGenAI({ apiKey: process.env.API_KEY });'',
      launch = \<lparr>entry_point = ''new GoogleGenAI'', required_params = [''apiKey''],
        optional_params = [], execution_pattern = SETUP_PATTERN, output_type = ''GoogleGenAI''\<rparr>\<rparr>"

definition system_instruction :: ReferenceDoc where
  "system_instruction =
     \<lparr>id_doc = ''system-instruction'', category = SETUP, title = ''System Instructions'',
      description = ''Define model persona and behavior.'', modelTarget = ''ALL'',
      explanation = ''System instructions should be passed within the request config object under the key `systemInstruction`. This sets the global context, tone, and constraints for the model generation.'',
      codeSnippet = ''const response = await ai.models.generateContent({\<newline>  model: 'gemini-3-flash-preview',\<newline>  contents: 'Explain quantum mechanics.',\<newline>  config: {\<newline>    systemInstruction: 'You are a theoretical physicist explaining to a layman.',\<newline>  }\<newline>});'',
      launch = \<lparr>entry_point = ''config.systemInstruction'',
        required_params = [''systemInstruction''], optional_params = [],
        execution_pattern = SETUP_PATTERN, output_type = ''GenerateContentResponse''\<rparr>\<rparr>"

definition KNOWLEDGE_BASE_head :: "ReferenceDoc list" where
  "KNOWLEDGE_BASE_head = [client_initialization, system_instruction]"

section \<open>Sorting the list (App.tsx, \<open>displayDocs\<close>)\<close>

text \<open>
  \<open>Array.prototype.sort(comparefn)\<close> is a built-in of the platform: it sorts the array in
  place, it is stable, and \<open>comparefn\<close> returns a negative number, zero or a positive number.
  The model is a stable insertion sort: each element, from the last to the first, is put in
  front of the first element it does not compare greater than.
\<close>

fun insert_sorted :: "('a \<Rightarrow> 'a \<Rightarrow> int) \<Rightarrow> 'a \<Rightarrow> 'a list \<Rightarrow> 'a list" where
  "insert_sorted comparefn x [] = [x]"
| "insert_sorted comparefn x (y # ys) =
     (if comparefn x y \<le> 0 then x # y # ys else y # insert_sorted comparefn x ys)"

definition sorted_elements :: "('a \<Rightarrow> 'a \<Rightarrow> int) \<Rightarrow> 'a list \<Rightarrow> 'a list" where
  "sorted_elements comparefn xs = foldr (insert_sorted comparefn) xs []"

text \<open>
  Arrays are mutable objects, so they live in a store: an array is known by its address, the
  index of its elements in the store. Addresses of arrays that exist are below the length of
  the store. \<open>[...a]\<close> allocates a new array with the elements of \<open>a\<close>; \<open>sort\<close> overwrites
  the array it is called on and returns that same array.
\<close>

type_synonym 'a arrays = "'a list list"

definition spread_copy :: "'a arrays \<Rightarrow> nat \<Rightarrow> 'a arrays \<times> nat" where
  "spread_copy st a = (st @ [st ! a], length st)"

definition array_sort :: "('a \<Rightarrow> 'a \<Rightarrow> int) \<Rightarrow> 'a arrays \<Rightarrow> nat \<Rightarrow> 'a arrays \<times> nat" where
  "array_sort comparefn st a = (st[a := sorted_elements comparefn (st ! a)], a)"

text \<open>
  \<open>displayDocs = sortAlpha ? [...filteredDocs].sort((a, b) => a.title.localeCompare(b.title))
  : filteredDocs\<close>. The flag \<open>alpha\<close> is the state \<open>sortAlpha\<close>, \<open>docs\<close> the address of the
  array \<open>filteredDocs\<close>. \<open>String.prototype.localeCompare\<close> depends on the locale of the host
  and is a parameter.
\<close>

definition displayDocs ::
  "(string \<Rightarrow> string \<Rightarrow> int) \<Rightarrow> bool \<Rightarrow> ReferenceDoc arrays \<Rightarrow> nat \<Rightarrow> ReferenceDoc arrays \<times> nat" where
  "displayDocs localeCompare alpha st docs =
     (if alpha
      then (case spread_copy st docs of
              (st1, copy) \<Rightarrow> array_sort (\<lambda>a b. localeCompare (title a) (title b)) st1 copy)
      else (st, docs))"

text \<open>
  A comparator is consistent (ECMAScript: a consistent comparison function) when swapping
  the arguments swaps the sign and "not greater" is transitive. \<open>localeCompare\<close> is required
  to be one.
\<close>

definition consistent :: "('a \<Rightarrow> 'a \<Rightarrow> int) \<Rightarrow> bool" where
  "consistent c \<longleftrightarrow>
     (\<forall>a b. c a b < 0 \<longleftrightarrow> 0 < c b a) \<and> (\<forall>a b d. c a b \<le> 0 \<and> c b d \<le> 0 \<longrightarrow> c a d \<le> 0)"

text \<open>
  One consistent comparator to run the model with: comparison by code units, the collation of
  a host without locale data.
\<close>

definition ordinal_compare :: "string \<Rightarrow> string \<Rightarrow> int" where
  "ordinal_compare a b = (if a < b then - 1 else if a = b then 0 else 1)"

section \<open>JavaScript values and objects\<close>

text \<open>
  The payload of a log is \<open>any\<close> value. Primitive values are immutable; objects, arrays and
  functions are mutable and shared by reference, so they live in a heap and a value refers to
  them by address. A finite number is the rational it denotes (\<open>Finite 0\<close> is \<open>+0\<close>). An
  object is the list of its own enumerable string-keyed properties in enumeration order, the
  values being data (no accessors); its prototype is \<open>Object.prototype\<close>, which has no
  \<open>toJSON\<close>. An array is the list of its elements (a hole reads as \<open>undefined\<close>). A function
  is what a call of it as \<open>toJSON\<close> does: it returns a value or it throws, and it changes and
  allocates no object. Arrays and functions have no other properties, and no prototype has a
  \<open>toJSON\<close> (\<open>BigInt.prototype\<close> has none unless a program adds it).
\<close>

datatype jsnum = NaN | PosInfinity | NegInfinity | NegZero | Finite rat

datatype jsval =
    VUndefined | VNull | VBool bool | VNum jsnum | VStr string | VBigInt int | VSymbol
  | VRef nat

datatype behaviour = Returns jsval | Throws

datatype jsobj = OObject "(string \<times> jsval) list" | OArray "jsval list" | OFunction behaviour

type_synonym heap = "jsobj list"

text \<open>
  The exceptions this code can raise; \<open>Thrown\<close> is whatever a function of the payload throws.
  \<open>DanglingReference\<close> is not a JavaScript exception: it is the outcome of the model on a
  reference to an address outside the heap, which no JavaScript value is.
\<close>

datatype js_error = TypeError | SyntaxError | Thrown | DanglingReference

text \<open>\<open>ToBoolean\<close>, the truthiness test of \<open>payload ? ... : ...\<close>.\<close>

fun ToBoolean :: "jsval \<Rightarrow> bool" where
  "ToBoolean VUndefined = False"
| "ToBoolean VNull = False"
| "ToBoolean (VBool b) = b"
| "ToBoolean (VNum n) =
     (case n of NaN \<Rightarrow> False | NegZero \<Rightarrow> False | Finite q \<Rightarrow> q \<noteq> 0 | _ \<Rightarrow> True)"
| "ToBoolean (VStr s) = (s \<noteq> [])"
| "ToBoolean (VBigInt i) = (i \<noteq> 0)"
| "ToBoolean VSymbol = True"
| "ToBoolean (VRef a) = True"

subsection \<open>JSON.stringify and JSON.parse\<close>

text \<open>
  A JSON text is represented by its syntax tree: \<open>JSON.stringify\<close> prints a tree and
  \<open>JSON.parse\<close> reads the same tree back (the printed form of a finite number reads back as
  that number, and an escaped string as that string).
\<close>

datatype json =
    JNull | JBool bool | JNumber rat | JString string | JArray "json list"
  | JObject "(string \<times> json) list"

text \<open>Numbers in JSON: \<open>NaN\<close> and the infinities print as \<open>null\<close>, \<open>-0\<close> prints as \<open>0\<close>.\<close>

fun number_json :: "jsnum \<Rightarrow> json" where
  "number_json (Finite q) = JNumber q"
| "number_json NegZero = JNumber 0"
| "number_json NaN = JNull"
| "number_json PosInfinity = JNull"
| "number_json NegInfinity = JNull"

text \<open>
  Step 2 of \<open>SerializeJSONProperty\<close> in ECMAScript: when the value is an object whose
  \<open>toJSON\<close> property is callable, the value serialized is what the call of it returns, and
  what the call throws is thrown. Here only an object can have a \<open>toJSON\<close> property, its own.
\<close>

fun toJSON_step :: "heap \<Rightarrow> jsval \<Rightarrow> js_error + jsval" where
  "toJSON_step h (VRef a) =
     (if length h \<le> a then Inl DanglingReference
      else (case h ! a of
              OObject props \<Rightarrow>
                (case map_of props ''toJSON'' of
                   Some (VRef f) \<Rightarrow>
                     (if length h \<le> f then Inl DanglingReference
                      else (case h ! f of
                              OFunction (Returns r) \<Rightarrow> Inr r
                            | OFunction Throws \<Rightarrow> Inl Thrown
                            | _ \<Rightarrow> Inr (VRef a)))
                 | _ \<Rightarrow> Inr (VRef a))
            | _ \<Rightarrow> Inr (VRef a)))"
| "toJSON_step h v = Inr v"

text \<open>
  \<open>SerializeJSONProperty\<close> as in ECMAScript: the \<open>toJSON\<close> step, then (\<open>SerializeJSONValue\<close>)
  the cases on the value, with the two loops over the elements of an array and the properties
  of an object. The stack holds the objects being serialized; meeting one of them again is a
  cycle and raises \<open>TypeError\<close>, as a BigInt does. \<open>undefined\<close>, a symbol and a function have
  no JSON form (\<open>None\<close>): as a property they are left out, as an array element they print as
  \<open>null\<close>.
\<close>

function SerializeJSONProperty :: "heap \<Rightarrow> nat list \<Rightarrow> jsval \<Rightarrow> js_error + json option"
  and SerializeJSONValue :: "heap \<Rightarrow> nat list \<Rightarrow> jsval \<Rightarrow> js_error + json option"
  and SerializeJSONArray :: "heap \<Rightarrow> nat list \<Rightarrow> jsval list \<Rightarrow> js_error + json list"
  and SerializeJSONObject ::
    "heap \<Rightarrow> nat list \<Rightarrow> (string \<times> jsval) list \<Rightarrow> js_error + (string \<times> json) list"
where
  "SerializeJSONProperty h stack v =
     (case toJSON_step h v of Inl e \<Rightarrow> Inl e | Inr w \<Rightarrow> SerializeJSONValue h stack w)"
| "SerializeJSONValue h stack VUndefined = Inr None"
| "SerializeJSONValue h stack VNull = Inr (Some JNull)"
| "SerializeJSONValue h stack (VBool b) = Inr (Some (JBool b))"
| "SerializeJSONValue h stack (VNum n) = Inr (Some (number_json n))"
| "SerializeJSONValue h stack (VStr s) = Inr (Some (JString s))"
| "SerializeJSONValue h stack (VBigInt i) = Inl TypeError"
| "SerializeJSONValue h stack VSymbol = Inr None"
| "SerializeJSONValue h stack (VRef a) =
     (if length h \<le> a then Inl DanglingReference
      else (case h ! a of
              OFunction b \<Rightarrow> Inr None
            | OArray elems \<Rightarrow>
                if a \<in> set stack then Inl TypeError
                else (case SerializeJSONArray h (a # stack) elems of
                        Inl e \<Rightarrow> Inl e
                      | Inr js \<Rightarrow> Inr (Some (JArray js)))
            | OObject props \<Rightarrow>
                if a \<in> set stack then Inl TypeError
                else (case SerializeJSONObject h (a # stack) props of
                        Inl e \<Rightarrow> Inl e
                      | Inr ps \<Rightarrow> Inr (Some (JObject ps)))))"
| "SerializeJSONArray h stack [] = Inr []"
| "SerializeJSONArray h stack (v # vs) =
     (case SerializeJSONProperty h stack v of
        Inl e \<Rightarrow> Inl e
      | Inr r \<Rightarrow>
          (case SerializeJSONArray h stack vs of
             Inl e \<Rightarrow> Inl e
           | Inr js \<Rightarrow> Inr ((case r of None \<Rightarrow> JNull | Some j \<Rightarrow> j) # js)))"
| "SerializeJSONObject h stack [] = Inr []"
| "SerializeJSONObject h stack (p # ps) =
     (case SerializeJSONProperty h stack (snd p) of
        Inl e \<Rightarrow> Inl e
      | Inr r \<Rightarrow>
          (case SerializeJSONObject h stack ps of
             Inl e \<Rightarrow> Inl e
           | Inr js \<Rightarrow> Inr ((case r of None \<Rightarrow> [] | Some j \<Rightarrow> [(fst p, j)]) @ js)))"
  by pat_completeness auto
termination
  apply (relation
    "inv_image (less_than <*lex*> less_than)
       (\<lambda>x. case x of
          Inl (Inl (h, stack, v)) \<Rightarrow> (card ({..<length h} - set stack), 1)
        | Inl (Inr (h, stack, v)) \<Rightarrow> (card ({..<length h} - set stack), 0)
        | Inr (Inl (h, stack, vs)) \<Rightarrow> (card ({..<length h} - set stack), Suc (Suc (length vs)))
        | Inr (Inr (h, stack, ps)) \<Rightarrow> (card ({..<length h} - set stack), Suc (Suc (length ps))))")
  subgoal by (intro wf_inv_image wf_lex_prod wf_less_than)
  subgoal by simp
  subgoal for h stack a members
  proof -
    assume "\<not> length h \<le> a" and "a \<notin> set stack"
    then have "a \<in> {..<length h} - set stack"
      by simp
    then have "card ({..<length h} - set stack - {a}) < card ({..<length h} - set stack)"
      by (intro card_Diff1_less) auto
    moreover have "{..<length h} - set (a # stack) = {..<length h} - set stack - {a}"
      by auto
    ultimately show ?thesis
      by simp
  qed
  subgoal for h stack a members
  proof -
    assume "\<not> length h \<le> a" and "a \<notin> set stack"
    then have "a \<in> {..<length h} - set stack"
      by simp
    then have "card ({..<length h} - set stack - {a}) < card ({..<length h} - set stack)"
      by (intro card_Diff1_less) auto
    moreover have "{..<length h} - set (a # stack) = {..<length h} - set stack - {a}"
      by auto
    ultimately show ?thesis
      by simp
  qed
  subgoal by simp
  subgoal by simp
  subgoal by simp
  subgoal by simp
  done

definition JSON_stringify :: "heap \<Rightarrow> jsval \<Rightarrow> js_error + json option" where
  "JSON_stringify h v = SerializeJSONProperty h [] v"

text \<open>
  \<open>JSON.parse\<close> builds the value of a JSON text out of new objects: every array and object
  of the text is allocated at the end of the heap, after the values it holds.
\<close>

fun JSON_parse :: "json \<Rightarrow> heap \<Rightarrow> jsval \<times> heap"
  and parse_elements :: "json list \<Rightarrow> heap \<Rightarrow> jsval list \<times> heap"
  and parse_members :: "(string \<times> json) list \<Rightarrow> heap \<Rightarrow> (string \<times> jsval) list \<times> heap"
where
  "JSON_parse JNull h = (VNull, h)"
| "JSON_parse (JBool b) h = (VBool b, h)"
| "JSON_parse (JNumber q) h = (VNum (Finite q), h)"
| "JSON_parse (JString s) h = (VStr s, h)"
| "JSON_parse (JArray js) h =
     (case parse_elements js h of (vs, h1) \<Rightarrow> (VRef (length h1), h1 @ [OArray vs]))"
| "JSON_parse (JObject ms) h =
     (case parse_members ms h of (ps, h1) \<Rightarrow> (VRef (length h1), h1 @ [OObject ps]))"
| "parse_elements [] h = ([], h)"
| "parse_elements (j # js) h =
     (case JSON_parse j h of (v, h1) \<Rightarrow>
        (case parse_elements js h1 of (vs, h2) \<Rightarrow> (v # vs, h2)))"
| "parse_members [] h = ([], h)"
| "parse_members (m # ms) h =
     (case JSON_parse (snd m) h of (v, h1) \<Rightarrow>
        (case parse_members ms h1 of (ps, h2) \<Rightarrow> ((fst m, v) # ps, h2)))"

section \<open>The traffic log (services/logger.ts, App.tsx)\<close>

record TrafficLog =
  traceId :: string
  timestamp :: int
  layer :: Layer
  status :: LogStatus
  message :: string
  payload :: jsval

text \<open>
  \<open>createLog\<close>. The two reads of the environment are parameters: \<open>randomUUID\<close> is the string
  returned by \<open>crypto.randomUUID()\<close> and \<open>now\<close> the number returned by \<open>Date.now()\<close>. An
  omitted \<open>payload\<close> argument is \<open>undefined\<close>. \<open>JSON.stringify\<close> returning \<open>undefined\<close> makes
  \<open>JSON.parse\<close> read the text \<open>undefined\<close>, which is a \<open>SyntaxError\<close>. The result is the log
  and the heap, which holds the objects \<open>JSON.parse\<close> allocated. The parameters \<open>layer\<close>,
  \<open>status\<close>, \<open>message\<close> and \<open>payload\<close> carry a prime here, the plain names being the fields
  of \<open>TrafficLog\<close>.
\<close>

definition createLog ::
  "string \<Rightarrow> int \<Rightarrow> heap \<Rightarrow> Layer \<Rightarrow> LogStatus \<Rightarrow> string \<Rightarrow> jsval
     \<Rightarrow> js_error + TrafficLog \<times> heap" where
  "createLog randomUUID now h layer' status' message' payload' =
     (if ToBoolean payload'
      then (case JSON_stringify h payload' of
              Inl e \<Rightarrow> Inl e
            | Inr None \<Rightarrow> Inl SyntaxError
            | Inr (Some text) \<Rightarrow>
                (case JSON_parse text h of
                   (v, h') \<Rightarrow>
                     Inr (\<lparr>traceId = take 8 randomUUID, timestamp = now, layer = layer',
                           status = status', message = message', payload = v\<rparr>, h')))
      else Inr (\<lparr>traceId = take 8 randomUUID, timestamp = now, layer = layer',
                 status = status', message = message', payload = VUndefined\<rparr>, h))"

text \<open>The state of the component \<open>App\<close> (its four \<open>useState\<close> cells) and the heap of objects.\<close>

record app_state =
  activeDoc :: ReferenceDoc
  logs :: "TrafficLog list"
  searchTerm :: string
  sortAlpha :: bool
  heap :: heap

text \<open>
  \<open>addLog\<close>: \<open>setLogs(prev => [...prev, createLog(layer, status, message, payload)])\<close>. An
  exception of \<open>createLog\<close> leaves the updater without a result: no next state.
\<close>

definition addLog ::
  "string \<Rightarrow> int \<Rightarrow> app_state \<Rightarrow> Layer \<Rightarrow> LogStatus \<Rightarrow> string \<Rightarrow> jsval
     \<Rightarrow> js_error + app_state" where
  "addLog randomUUID now s layer' status' message' payload' =
     (case createLog randomUUID now (heap s) layer' status' message' payload' of
        Inl e \<Rightarrow> Inl e
      | Inr (entry, h') \<Rightarrow> Inr (s\<lparr>logs := logs s @ [entry], heap := h'\<rparr>))"

text \<open>\<open>clearLogs\<close>: \<open>setLogs([])\<close>.\<close>

definition clearLogs :: "app_state \<Rightarrow> app_state" where
  "clearLogs s = s\<lparr>logs := []\<rparr>"

text \<open>
  One call of \<open>addLog\<close> with what the environment returned during it, and a sequence of
  calls, each on the state the one before left.
\<close>

record log_call =
  call_uuid :: string
  call_now :: int
  call_layer :: Layer
  call_status :: LogStatus
  call_message :: string
  call_payload :: jsval

fun addLogs :: "app_state \<Rightarrow> log_call list \<Rightarrow> js_error + app_state" where
  "addLogs s [] = Inr s"
| "addLogs s (c # cs) =
     (case addLog (call_uuid c) (call_now c) s (call_layer c) (call_status c) (call_message c)
             (call_payload c) of
        Inl e \<Rightarrow> Inl e
      | Inr s' \<Rightarrow> addLogs s' cs)"

text \<open>The record a call leaves when it stores no payload or the payload \<open>v\<close>.\<close>

definition log_of :: "log_call \<Rightarrow> jsval \<Rightarrow> TrafficLog" where
  "log_of c v =
     \<lparr>traceId = take 8 (call_uuid c), timestamp = call_now c, layer = call_layer c,
      status = call_status c, message = call_message c, payload = v\<rparr>"

text \<open>
  The format of a version 4 UUID, which \<open>crypto.randomUUID()\<close> returns: 36 characters,
  lower-case hexadecimal digits in groups of 8, 4, 4, 4 and 12 separated by hyphens, the
  version digit \<open>4\<close> and a variant digit among \<open>8\<close>, \<open>9\<close>, \<open>a\<close>, \<open>b\<close>.
\<close>

definition hex_digit :: "char \<Rightarrow> bool" where
  "hex_digit c \<longleftrightarrow> c \<in> set ''0123456789abcdef''"

definition is_uuid_v4 :: "string \<Rightarrow> bool" where
  "is_uuid_v4 u \<longleftrightarrow>
     length u = 36 \<and>
     list_all (\<lambda>i. if i \<in> {8, 13, 18, 23} then u ! i = CHR ''-'' else hex_digit (u ! i))
       [0..<36] \<and>
     u ! 14 = CHR ''4'' \<and> u ! 19 \<in> set ''89ab''"

text \<open>The state in which \<open>App\<close> starts (the initial values of its \<open>useState\<close> cells).\<close>

definition initial_state :: "heap \<Rightarrow> app_state" where
  "initial_state h =
     \<lparr>activeDoc = client_initialization, logs = [], searchTerm = [], sortAlpha = False, heap = h\<rparr>"

text \<open>What the logs hold after a sequence of calls; nothing when a call raised.\<close>

definition view_after :: "app_state \<Rightarrow> log_call list \<Rightarrow> TrafficLog list option" where
  "view_after s calls = (case addLogs s calls of Inl e \<Rightarrow> None | Inr s' \<Rightarrow> Some (logs s'))"

subsection \<open>Notions of the specification\<close>

text \<open>
  The payload of a call can be captured when \<open>createLog\<close> does not raise on it: it is falsy,
  or \<open>JSON.stringify\<close> prints it.
\<close>

definition capturable :: "heap \<Rightarrow> jsval \<Rightarrow> bool" where
  "capturable h p \<longleftrightarrow>
     (case JSON_stringify h p of Inr (Some text) \<Rightarrow> True | _ \<Rightarrow> \<not> ToBoolean p)"

text \<open>
  The heap a call leaves, and a sequence of calls each of whose payloads can be captured in
  the heap at the time of its call.
\<close>

definition heap_after :: "heap \<Rightarrow> jsval \<Rightarrow> heap" where
  "heap_after h p =
     (if ToBoolean p
      then (case JSON_stringify h p of Inr (Some text) \<Rightarrow> snd (JSON_parse text h) | _ \<Rightarrow> h)
      else h)"

fun capturable_calls :: "heap \<Rightarrow> log_call list \<Rightarrow> bool" where
  "capturable_calls h [] = True"
| "capturable_calls h (c # cs) =
     (capturable h (call_payload c) \<and> capturable_calls (heap_after h (call_payload c)) cs)"

text \<open>
  A value has no JSON form when what is serialized for it, after the \<open>toJSON\<close> step, is
  \<open>undefined\<close>, a symbol or a function.
\<close>

fun is_function :: "jsobj \<Rightarrow> bool" where
  "is_function (OFunction b) = True"
| "is_function obj = False"

definition no_json_form :: "heap \<Rightarrow> jsval \<Rightarrow> bool" where
  "no_json_form h v =
     (case toJSON_step h v of
        Inr VUndefined \<Rightarrow> True
      | Inr VSymbol \<Rightarrow> True
      | Inr (VRef f) \<Rightarrow> f < length h \<and> is_function (h ! f)
      | _ \<Rightarrow> False)"

text \<open>
  The data primitives (\<open>null\<close>, booleans, numbers, strings) and what a JSON round trip makes
  of one: \<open>NaN\<close> and the infinities come back as \<open>null\<close>, \<open>-0\<close> as \<open>0\<close>, the others as they are.
\<close>

fun is_data_primitive :: "jsval \<Rightarrow> bool" where
  "is_data_primitive VNull = True"
| "is_data_primitive (VBool b) = True"
| "is_data_primitive (VNum n) = True"
| "is_data_primitive (VStr s) = True"
| "is_data_primitive v = False"

fun copied_primitive :: "jsval \<Rightarrow> jsval" where
  "copied_primitive (VNum NaN) = VNull"
| "copied_primitive (VNum PosInfinity) = VNull"
| "copied_primitive (VNum NegInfinity) = VNull"
| "copied_primitive (VNum NegZero) = VNum (Finite 0)"
| "copied_primitive v = v"

text \<open>
  Circular references. The values inside an object are the values of its properties or its
  elements. \<open>reaches h v u\<close>: serializing \<open>v\<close> comes to serialize \<open>u\<close> (unless something raises
  before), going from a value to the values inside the object serialized for it. \<open>enters h v
  a\<close>: it comes to the object or array at address \<open>a\<close>. The value is circular when it enters
  an object that enters itself again from one of the values inside it. (\<open>ListMem w xs\<close> is
  \<open>w \<in> set xs\<close>, in the form the predicate compiler runs.)
\<close>

fun members :: "jsobj \<Rightarrow> jsval list" where
  "members (OObject props) = map snd props"
| "members (OArray elems) = elems"
| "members (OFunction b) = []"








text \<open>
  The exact reading of a value as a JSON value, with no conversion: \<open>holds_json H v j\<close> says
  that \<open>v\<close> in the heap \<open>H\<close> is \<open>null\<close>, the boolean, the finite number, the string, or an
  array or object holding, in order, exactly the values of \<open>j\<close>.
\<close>

fun holds_json :: "heap \<Rightarrow> jsval \<Rightarrow> json \<Rightarrow> bool" where
  "holds_json H v JNull = (v = VNull)"
| "holds_json H v (JBool b) = (v = VBool b)"
| "holds_json H v (JNumber q) = (v = VNum (Finite q))"
| "holds_json H v (JString s) = (v = VStr s)"
| "holds_json H v (JArray js) =
     (case v of
        VRef a \<Rightarrow>
          a < length H \<and>
          (case H ! a of OArray elems \<Rightarrow> list_all2 (holds_json H) elems js | _ \<Rightarrow> False)
      | _ \<Rightarrow> False)"
| "holds_json H v (JObject ms) =
     (case v of
        VRef a \<Rightarrow>
          a < length H \<and>
          (case H ! a of
             OObject props \<Rightarrow>
               list_all2 (\<lambda>p m. fst p = fst m \<and> holds_json H (snd p) (snd m)) props ms
           | _ \<Rightarrow> False)
      | _ \<Rightarrow> False)"

text \<open>The addresses a value and an object refer to.\<close>

fun val_refs :: "jsval \<Rightarrow> nat list" where
  "val_refs (VRef a) = [a]"
| "val_refs v = []"

fun obj_refs :: "jsobj \<Rightarrow> nat list" where
  "obj_refs (OObject props) = concat (map (\<lambda>p. val_refs (snd p)) props)"
| "obj_refs (OArray elems) = concat (map val_refs elems)"
| "obj_refs (OFunction (Returns r)) = val_refs r"
| "obj_refs (OFunction Throws) = []"



text \<open>
  Structural independence: \<open>closed_from n h'\<close> says that the objects of \<open>h'\<close> from address \<open>n\<close>
  on refer only to one another, and \<open>refers_from n h' v\<close> that the value \<open>v\<close> refers to one of
  them, if to any object. With \<open>n\<close> the size of the heap before a call, nothing that \<open>v\<close>
  reaches existed before the call.
\<close>

definition closed_from :: "nat \<Rightarrow> heap \<Rightarrow> bool" where
  "closed_from n h' \<longleftrightarrow>
     (\<forall>i \<in> {n..<length h'}. \<forall>a \<in> set (obj_refs (h' ! i)). n \<le> a \<and> a < length h')"

definition refers_from :: "nat \<Rightarrow> heap \<Rightarrow> jsval \<Rightarrow> bool" where
  "refers_from n h' v \<longleftrightarrow>
     (\<forall>a \<in> set (val_refs v). n \<le> a \<and> a < length h') \<and> closed_from n h'"

text \<open>
  Later mutation: a heap \<open>H\<close> keeps the objects of \<open>h'\<close> from address \<open>n\<close> on when it holds them
  unchanged. The objects below \<open>n\<close> may have been mutated in any way, and objects may have been
  allocated since.
\<close>

definition keeps_objects :: "nat \<Rightarrow> heap \<Rightarrow> heap \<Rightarrow> bool" where
  "keeps_objects n h' H \<longleftrightarrow> length h' \<le> length H \<and> (\<forall>a \<in> {n..<length h'}. H ! a = h' ! a)"

subsection \<open>Calls and heaps to run the log on\<close>

text \<open>
  The call of the mount effect, \<open>addLog('DATABASE', LogStatus.INFO, 'Reference Database
  mounted.', { entries: KNOWLEDGE_BASE.length })\<close>, whose payload object is at address 0 of
  \<open>entries_heap\<close>; the call of \<open>handleDocChange\<close> on the second entry; the call of
  \<open>toggleSort\<close>; and a call with the layer, status and message of \<open>handleCopy\<close> that passes
  as payload the object at address 1, which does not exist in \<open>entries_heap\<close>: it is the
  payload that the first call stores. The UUIDs and clock readings are values the environment
  can return.
\<close>

definition entries_heap :: heap where
  "entries_heap = [OObject [(''entries'', VNum (Finite 15))]]"

definition mounted_call :: log_call where
  "mounted_call =
     \<lparr>call_uuid = ''3b241101-e2bb-4255-8caf-4136c566a962'', call_now = 1700000000100,
      call_layer = DATABASE, call_status = INFO, call_message = ''Reference Database mounted.'',
      call_payload = VRef 0\<rparr>"

definition read_call :: log_call where
  "read_call =
     \<lparr>call_uuid = ''9c0b4ef8-7d1a-4e6b-bb6d-6bb9bd380a11'', call_now = 1700000000500,
      call_layer = UI, call_status = ACCESS,
      call_message = ''Read access: System Instructions [system-instruction]'',
      call_payload = VUndefined\<rparr>"

definition colliding_call :: log_call where
  "colliding_call =
     \<lparr>call_uuid = ''3b241101-9c0b-4ef8-bb6d-6bb9bd380a11'', call_now = 1700000000050,
      call_layer = UI, call_status = ACCESS,
      call_message = ''Sort order changed: A-Z'', call_payload = VUndefined\<rparr>"

definition recopy_call :: log_call where
  "recopy_call =
     \<lparr>call_uuid = ''9c0b4ef8-7d1a-4e6b-bb6d-6bb9bd380a11'', call_now = 1700000000500,
      call_layer = DATABASE, call_status = COPY,
      call_message = ''Content copied to clipboard: system-instruction [RAW]'',
      call_payload = VRef 1\<rparr>"

text \<open>
  A heap whose object 0 has a property that refers to the object itself, with a function that
  returns \<open>undefined\<close>; and a heap whose object 0 has that function as \<open>toJSON\<close>.
\<close>

definition cyclic_heap :: heap where
  "cyclic_heap = [OObject [(''self'', VRef 0)], OFunction (Returns VUndefined)]"




section \<open>Searching the catalog\<close>

lemma startsWith_iff: "startsWith s t \<longleftrightarrow> (\<exists>q. s = t @ q)"
  by (induction s t rule: startsWith.induct) auto

lemma includes_str_iff: "includes_str s t \<longleftrightarrow> (\<exists>p q. s = p @ t @ q)"
proof (induction s)
  case Nil
  show ?case by (cases t) auto
next
  case (Cons d s)
  have "(\<exists>p q. d # s = p @ t @ q) \<longleftrightarrow> (\<exists>q. d # s = t @ q) \<or> (\<exists>p q. s = p @ t @ q)"
    by (auto simp: Cons_eq_append_conv)
  with Cons show ?case by (simp add: startsWith_iff del: startsWith.simps)
qed

lemma doc_matches_iff:
  "doc_matches t d \<longleftrightarrow>
     ci_substring t (title d) \<or> ci_substring t (category_value (category d)) \<or>
     ci_substring t (id_doc d)"
  by (simp add: doc_matches_def ci_substring_def includes_str_iff Let_def)

text \<open>
  C5: for every search term \<open>t\<close> (the empty one included, so every non-empty one), every
  entry that \<open>filteredDocs\<close> returns has \<open>t\<close>, case-insensitively, as a substring of its title,
  its category value or its id, and every entry of the catalog that it does not return has
  \<open>t\<close> in none of the three.
\<close>

theorem filter_exactly_the_matches:
  "(\<forall>d \<in> set (filteredDocs kb t).
      ci_substring t (title d) \<or> ci_substring t (category_value (category d)) \<or>
      ci_substring t (id_doc d)) \<and>
   (\<forall>d \<in> set kb - set (filteredDocs kb t).
      \<not> ci_substring t (title d) \<and> \<not> ci_substring t (category_value (category d)) \<and>
      \<not> ci_substring t (id_doc d))"
  by (auto simp: filteredDocs_def doc_matches_iff)

theorem filter_exactly_the_matches_witness:
  "''INIT'' \<noteq> [] \<and> filteredDocs KNOWLEDGE_BASE_head ''INIT'' = [client_initialization] \<and>
   (ci_substring ''INIT'' (title client_initialization) \<or>
    ci_substring ''INIT'' (category_value (category client_initialization)) \<or>
    ci_substring ''INIT'' (id_doc client_initialization)) \<and>
   \<not> ci_substring ''INIT'' (title system_instruction) \<and>
   \<not> ci_substring ''INIT'' (category_value (category system_instruction)) \<and>
   \<not> ci_substring ''INIT'' (id_doc system_instruction)"
proof -
  have run: "filteredDocs KNOWLEDGE_BASE_head ''INIT'' = [client_initialization]"
    by code_simp
  have differ: "system_instruction \<noteq> client_initialization"
    by (simp add: client_initialization_def system_instruction_def)
  from filter_exactly_the_matches [of KNOWLEDGE_BASE_head "''INIT''"] run differ
  show ?thesis
    by (simp add: KNOWLEDGE_BASE_head_def)
qed

text \<open>
  C6: with the empty string as term \<open>filteredDocs\<close> returns the whole catalog, in its order;
  for every term the result is a subsequence of the catalog, so the matches are in the
  catalog's relative order.
\<close>

theorem filter_keeps_catalog_order:
  "filteredDocs kb [] = kb \<and> subseq (filteredDocs kb t) kb"
proof
  have "includes_str s []" for s
    by (cases s) simp_all
  then have "doc_matches [] d" for d
    by (simp add: doc_matches_def toLowerCase_def)
  then show "filteredDocs kb [] = kb"
    by (simp add: filteredDocs_def)
  show "subseq (filteredDocs kb t) kb"
    by (simp add: filteredDocs_def)
qed

theorem filter_keeps_catalog_order_witness:
  "filteredDocs KNOWLEDGE_BASE_head [] = [client_initialization, system_instruction] \<and>
   subseq (filteredDocs KNOWLEDGE_BASE_head ''system'') KNOWLEDGE_BASE_head \<and>
   filteredDocs KNOWLEDGE_BASE_head ''system'' = [system_instruction]"
proof -
  have "filteredDocs KNOWLEDGE_BASE_head ''system'' = [system_instruction]"
    by code_simp
  with filter_keeps_catalog_order [of KNOWLEDGE_BASE_head "''system''"] show ?thesis
    by (simp add: KNOWLEDGE_BASE_head_def)
qed

section \<open>Looking an entry up\<close>

text \<open>
  C8: when the catalog has an entry with the id, \<open>getDocById\<close> returns an entry of the
  catalog with that id (the entry, when ids are unique); when it has none, the result is
  \<open>undefined\<close> (\<open>None\<close>), a value and not an exception. \<open>getDocById\<close> only reads its
  arguments: its result is all it produces.
\<close>

theorem getDocById_entry_or_none:
  "((\<exists>d \<in> set docs. id_doc d = i) \<longrightarrow>
      (\<exists>d. getDocById docs i = Some d \<and> d \<in> set docs \<and> id_doc d = i)) \<and>
   ((\<forall>d \<in> set docs. id_doc d \<noteq> i) \<longrightarrow> getDocById docs i = None) \<and>
   (distinct (map id_doc docs) \<longrightarrow> (\<forall>d \<in> set docs. getDocById docs (id_doc d) = Some d))"
proof (intro conjI impI ballI)
  assume "\<exists>d \<in> set docs. id_doc d = i"
  then obtain d where "getDocById docs i = Some d"
    by (cases "getDocById docs i") (auto simp: getDocById_def find_None_iff)
  then show "\<exists>d. getDocById docs i = Some d \<and> d \<in> set docs \<and> id_doc d = i"
    by (auto simp: getDocById_def find_Some_iff)
next
  assume "\<forall>d \<in> set docs. id_doc d \<noteq> i"
  then show "getDocById docs i = None"
    by (simp add: getDocById_def find_None_iff)
next
  fix d
  assume "distinct (map id_doc docs)" and "d \<in> set docs"
  then show "getDocById docs (id_doc d) = Some d"
    unfolding getDocById_def
  proof (induction docs)
    case Nil
    then show ?case by simp
  next
    case (Cons x xs)
    then show ?case by (cases "x = d") (auto simp: image_iff)
  qed
qed

theorem getDocById_entry_or_none_witness:
  "getDocById KNOWLEDGE_BASE_head ''system-instruction'' = Some system_instruction \<and>
   getDocById KNOWLEDGE_BASE_head ''text-generation'' = None"
proof -
  have ids: "id_doc client_initialization = ''client-initialization''"
    "id_doc system_instruction = ''system-instruction''"
    by (simp_all add: client_initialization_def system_instruction_def)
  from getDocById_entry_or_none [of KNOWLEDGE_BASE_head "''system-instruction''"]
    getDocById_entry_or_none [of KNOWLEDGE_BASE_head "''text-generation''"] ids
  show ?thesis
    by (auto simp: KNOWLEDGE_BASE_head_def)
qed

section \<open>Clearing the log\<close>

text \<open>
  C7: after \<open>clearLogs\<close> the logs are the empty sequence; clearing twice is clearing once, and
  clearing an empty log changes nothing. \<open>clearLogs\<close> has no failing case and leaves the rest
  of the state as it was.
\<close>

theorem clearLogs_empties:
  "logs (clearLogs s) = [] \<and> clearLogs (clearLogs s) = clearLogs s \<and>
   (logs s = [] \<longrightarrow> clearLogs s = s) \<and>
   activeDoc (clearLogs s) = activeDoc s \<and> searchTerm (clearLogs s) = searchTerm s \<and>
   sortAlpha (clearLogs s) = sortAlpha s \<and> heap (clearLogs s) = heap s"
  by (simp add: clearLogs_def)


theorem clearLogs_empties_witness:
  "logs (initial_state []) = [] \<and> logs (clearLogs (initial_state [])) = [] \<and>
   clearLogs (initial_state []) = initial_state []"
proof -
  have empty: "logs (initial_state []) = []"
    by (simp add: initial_state_def)
  with clearLogs_empties [of "initial_state []"] show ?thesis
    by simp
qed

section \<open>Sorting by title\<close>

lemma mset_insert_sorted: "mset (insert_sorted c x ys) = add_mset x (mset ys)"
  by (induction ys) simp_all

lemma mset_sorted_elements: "mset (sorted_elements c xs) = mset xs"
  by (induction xs) (simp_all add: sorted_elements_def mset_insert_sorted)

lemma set_insert_sorted: "set (insert_sorted c x ys) = insert x (set ys)"
  by (induction ys) auto

lemma consistent_flip:
  assumes "consistent c" and "0 < c a b"
  shows "c b a \<le> 0"
proof -
  from assms have "c b a < 0"
    unfolding consistent_def by blast
  then show ?thesis by simp
qed

lemma consistent_trans: "consistent c \<Longrightarrow> c a b \<le> 0 \<Longrightarrow> c b d \<le> 0 \<Longrightarrow> c a d \<le> 0"
  unfolding consistent_def by blast

lemma consistent_refl:
  assumes "consistent c"
  shows "c a a = 0"
proof -
  from assms have "c a a < 0 \<longleftrightarrow> 0 < c a a"
    unfolding consistent_def by blast
  then show ?thesis by arith
qed

lemma sorted_insert_sorted:
  assumes "consistent c" and "sorted_wrt (\<lambda>a b. c a b \<le> 0) ys"
  shows "sorted_wrt (\<lambda>a b. c a b \<le> 0) (insert_sorted c x ys)"
  using assms(2)
proof (induction ys)
  case Nil
  then show ?case by simp
next
  case (Cons y ys)
  show ?case
  proof (cases "c x y \<le> 0")
    case True
    have "c x z \<le> 0" if "z \<in> set ys" for z
    proof -
      from Cons.prems that have "c y z \<le> 0" by simp
      with True show ?thesis
        by (rule consistent_trans [OF assms(1)])
    qed
    with True Cons.prems show ?thesis
      by simp
  next
    case False
    then have "c y x \<le> 0"
      using assms(1) by (simp add: consistent_flip)
    with False Cons show ?thesis
      by (simp add: set_insert_sorted)
  qed
qed

lemma sorted_sorted_elements:
  "consistent c \<Longrightarrow> sorted_wrt (\<lambda>a b. c a b \<le> 0) (sorted_elements c xs)"
  by (induction xs) (simp_all add: sorted_elements_def sorted_insert_sorted)

lemma consistent_equiv_le:
  assumes "consistent c" and "c x t = 0" and "c y t = 0"
  shows "c x y \<le> 0"
proof -
  from assms(1) have "c y t < 0 \<longleftrightarrow> 0 < c t y"
    unfolding consistent_def by blast
  with assms(3) have "c t y \<le> 0"
    by simp
  moreover from assms(2) have "c x t \<le> 0"
    by simp
  ultimately show ?thesis
    using consistent_trans [OF assms(1)] by blast
qed

lemma stable_insert_sorted:
  assumes "consistent lc"
  shows "filter (\<lambda>z. lc (f z) t = 0) (insert_sorted (\<lambda>a b. lc (f a) (f b)) x ys) =
         (if lc (f x) t = 0 then x # filter (\<lambda>z. lc (f z) t = 0) ys
          else filter (\<lambda>z. lc (f z) t = 0) ys)"
proof (induction ys)
  case Nil
  then show ?case by simp
next
  case (Cons y ys)
  have "lc (f x) (f y) \<le> 0" if "lc (f x) t = 0" and "lc (f y) t = 0"
    using that by (rule consistent_equiv_le [OF assms])
  with Cons show ?case
    by simp
qed

lemma stable_sorted_elements:
  "consistent lc \<Longrightarrow>
   filter (\<lambda>z. lc (f z) t = 0) (sorted_elements (\<lambda>a b. lc (f a) (f b)) xs) =
   filter (\<lambda>z. lc (f z) t = 0) xs"
  by (induction xs) (simp_all add: sorted_elements_def stable_insert_sorted)

lemma same_key_sorted_elements:
  assumes "consistent lc"
  shows "filter (\<lambda>z. f z = t) (sorted_elements (\<lambda>a b. lc (f a) (f b)) xs) =
         filter (\<lambda>z. f z = t) xs"
proof -
  have narrow: "filter (\<lambda>z. f z = t) (filter (\<lambda>z. lc (f z) t = 0) zs) = filter (\<lambda>z. f z = t) zs"
    for zs
    by (induction zs) (simp_all add: consistent_refl [OF assms])
  have "filter (\<lambda>z. f z = t) (sorted_elements (\<lambda>a b. lc (f a) (f b)) xs) =
        filter (\<lambda>z. f z = t)
          (filter (\<lambda>z. lc (f z) t = 0) (sorted_elements (\<lambda>a b. lc (f a) (f b)) xs))"
    by (simp only: narrow)
  also have "\<dots> = filter (\<lambda>z. f z = t) (filter (\<lambda>z. lc (f z) t = 0) xs)"
    by (simp only: stable_sorted_elements [OF assms])
  also have "\<dots> = filter (\<lambda>z. f z = t) xs"
    by (simp only: narrow)
  finally show ?thesis .
qed

text \<open>
  The model of the built-in is not one implementation among several: for a consistent
  comparator, a list that is sorted and keeps the input order inside every class of equal
  elements is determined by the input, so every stable sort returns \<open>sorted_elements\<close>.
\<close>

lemma consistent_both_le:
  assumes "consistent c" and "c x y \<le> 0" and "c y x \<le> 0"
  shows "c x y = 0"
proof -
  from assms(1) have "c x y < 0 \<longleftrightarrow> 0 < c y x"
    unfolding consistent_def by blast
  with assms(2,3) show ?thesis
    by simp
qed

lemma stable_sorted_unique:
  assumes "consistent c"
    and "sorted_wrt (\<lambda>a b. c a b \<le> 0) xs"
    and "sorted_wrt (\<lambda>a b. c a b \<le> 0) ys"
    and "\<forall>t. filter (\<lambda>z. c z t = 0) xs = filter (\<lambda>z. c z t = 0) ys"
  shows "xs = ys"
  using assms(2-4)
proof (induction xs arbitrary: ys)
  case Nil
  have "ys = []"
  proof (cases ys)
    case (Cons y ys')
    from spec [OF Nil(3), of y] have "filter (\<lambda>z. c z y = 0) ys = []"
      by simp
    with Cons show ?thesis
      by (simp add: consistent_refl [OF assms(1)])
  qed simp
  then show ?case by simp
next
  case (Cons x xs)
  have xx: "c x x = 0"
    by (rule consistent_refl [OF assms(1)])
  from spec [OF Cons.prems(3), of x]
  have seg: "filter (\<lambda>z. c z x = 0) ys = x # filter (\<lambda>z. c z x = 0) xs"
    by (simp add: xx)
  then have "x \<in> set (filter (\<lambda>z. c z x = 0) ys)"
    by simp
  then have x_in: "x \<in> set ys"
    unfolding set_filter by blast
  then obtain y ys' where ys: "ys = y # ys'"
    by (cases ys) auto
  have yy: "c y y = 0"
    by (rule consistent_refl [OF assms(1)])
  from spec [OF Cons.prems(3), of y]
  have "filter (\<lambda>z. c z y = 0) (x # xs) = y # filter (\<lambda>z. c z y = 0) ys'"
    by (simp add: ys yy)
  then have "y \<in> set (filter (\<lambda>z. c z y = 0) (x # xs))"
    by simp
  then have y_in: "y \<in> set (x # xs)"
    unfolding set_filter by blast
  have "c x y \<le> 0"
  proof (cases "y = x")
    case True
    with xx show ?thesis by simp
  next
    case False
    with y_in Cons.prems(1) show ?thesis by auto
  qed
  moreover have "c y x \<le> 0"
  proof (cases "x = y")
    case True
    with yy show ?thesis by simp
  next
    case False
    with x_in Cons.prems(2) show ?thesis by (auto simp: ys)
  qed
  ultimately have "c y x = 0"
    by (intro consistent_both_le [OF assms(1)])
  with seg have head: "y = x"
    by (simp add: ys)
  have "\<forall>t. filter (\<lambda>z. c z t = 0) xs = filter (\<lambda>z. c z t = 0) ys'"
  proof
    fix t
    from spec [OF Cons.prems(3), of t]
    have "filter (\<lambda>z. c z t = 0) (x # xs) = filter (\<lambda>z. c z t = 0) (x # ys')"
      by (simp add: ys head)
    then show "filter (\<lambda>z. c z t = 0) xs = filter (\<lambda>z. c z t = 0) ys'"
      by (cases "c x t = 0") simp_all
  qed
  moreover from Cons.prems(1) have "sorted_wrt (\<lambda>a b. c a b \<le> 0) xs"
    by simp
  moreover from Cons.prems(2) have "sorted_wrt (\<lambda>a b. c a b \<le> 0) ys'"
    by (simp add: ys)
  ultimately have "xs = ys'"
    by (rule Cons.IH [rotated 2])
  with head ys show ?case
    by simp
qed

lemma sorted_elements_unique:
  assumes "consistent c"
    and "sorted_wrt (\<lambda>a b. c a b \<le> 0) ys"
    and "\<forall>t. filter (\<lambda>z. c z t = 0) ys = filter (\<lambda>z. c z t = 0) xs"
  shows "ys = sorted_elements c xs"
proof (rule stable_sorted_unique [OF assms(1,2)])
  show "sorted_wrt (\<lambda>a b. c a b \<le> 0) (sorted_elements c xs)"
    by (rule sorted_sorted_elements [OF assms(1)])
  from assms(3) stable_sorted_elements [OF assms(1), of "\<lambda>z. z" _ xs]
  show "\<forall>t. filter (\<lambda>z. c z t = 0) ys = filter (\<lambda>z. c z t = 0) (sorted_elements c xs)"
    by simp
qed

lemma consistent_on_title:
  "consistent lc \<Longrightarrow> consistent (\<lambda>a b. lc (title a) (title b))"
  unfolding consistent_def by blast

lemma ordinal_compare_neg: "ordinal_compare a b < 0 \<longleftrightarrow> a < b"
  by (simp add: ordinal_compare_def)

lemma ordinal_compare_pos: "0 < ordinal_compare a b \<longleftrightarrow> b < a"
  using less_linear [of a b] by (simp add: ordinal_compare_def) (use less_asym in blast)

lemma ordinal_compare_le: "ordinal_compare a b \<le> 0 \<longleftrightarrow> a \<le> b"
  by (simp add: ordinal_compare_def le_less)

lemma consistent_ordinal_compare: "consistent ordinal_compare"
  unfolding consistent_def ordinal_compare_neg ordinal_compare_pos ordinal_compare_le
  using order_trans by blast


lemma displayDocs_alpha:
  "displayDocs lc True st docs =
     (st @ [sorted_elements (\<lambda>a b. lc (title a) (title b)) (st ! docs)], length st)"
  by (simp add: displayDocs_def spread_copy_def array_sort_def)

lemma displayDocs_original: "displayDocs lc False st docs = (st, docs)"
  by (simp add: displayDocs_def)

text \<open>
  C4, as the code has it: for a consistent \<open>localeCompare\<close>, the array that \<open>displayDocs\<close>
  returns in alphabetical mode holds the entries of the input, ordered by title under that
  comparison, and the entries whose titles compare equal (identical titles among them) are in
  the order they had in the input. Identifiers play no part in the order.
\<close>

theorem displayDocs_alphabetical_stable:
  assumes "consistent localeCompare"
    and "docs < length st"
    and "displayDocs localeCompare True st docs = (st', out)"
  shows "mset (st' ! out) = mset (st ! docs) \<and>
         sorted_wrt (\<lambda>a b. localeCompare (title a) (title b) \<le> 0) (st' ! out) \<and>
         (\<forall>t. filter (\<lambda>d. localeCompare (title d) t = 0) (st' ! out) =
              filter (\<lambda>d. localeCompare (title d) t = 0) (st ! docs)) \<and>
         (\<forall>t. filter (\<lambda>d. title d = t) (st' ! out) = filter (\<lambda>d. title d = t) (st ! docs))"
proof -
  from assms(3) have out: "st' ! out = sorted_elements (\<lambda>a b. localeCompare (title a) (title b)) (st ! docs)"
    by (auto simp: displayDocs_alpha)
  show ?thesis
    unfolding out
    using sorted_sorted_elements [OF consistent_on_title [OF assms(1)]]
    by (simp add: mset_sorted_elements stable_sorted_elements [OF assms(1)]
        same_key_sorted_elements [OF assms(1)])
qed

theorem displayDocs_alphabetical_stable_witness:
  "consistent ordinal_compare \<and> (0::nat) < length [[system_instruction, client_initialization]] \<and>
   displayDocs ordinal_compare True [[system_instruction, client_initialization]] 0 =
     ([[system_instruction, client_initialization],
       [client_initialization, system_instruction]], 1) \<and>
   sorted_wrt (\<lambda>a b. ordinal_compare (title a) (title b) \<le> 0)
     [client_initialization, system_instruction]"
proof -
  have run: "displayDocs ordinal_compare True [[system_instruction, client_initialization]] 0 =
     ([[system_instruction, client_initialization],
       [client_initialization, system_instruction]], 1)"
    by code_simp
  have inside: "(0::nat) < length [[system_instruction, client_initialization]]"
    by simp
  from displayDocs_alphabetical_stable [OF consistent_ordinal_compare inside run]
  show ?thesis
    using run by (simp add: consistent_ordinal_compare)
qed

text \<open>
  C4 as stated fails: two entries with one title and different ids come out in the order
  they went in, whichever that is, so their ids do not determine their relative order.
\<close>

theorem alphabetical_ties_counterexample:
  "title (system_instruction\<lparr>title := ''Client Initialization''\<rparr>) = title client_initialization \<and>
   id_doc (system_instruction\<lparr>title := ''Client Initialization''\<rparr>) \<noteq> id_doc client_initialization \<and>
   fst (displayDocs ordinal_compare True
          [[client_initialization, system_instruction\<lparr>title := ''Client Initialization''\<rparr>]] 0) !
   snd (displayDocs ordinal_compare True
          [[client_initialization, system_instruction\<lparr>title := ''Client Initialization''\<rparr>]] 0) =
     [client_initialization, system_instruction\<lparr>title := ''Client Initialization''\<rparr>] \<and>
   fst (displayDocs ordinal_compare True
          [[system_instruction\<lparr>title := ''Client Initialization''\<rparr>, client_initialization]] 0) !
   snd (displayDocs ordinal_compare True
          [[system_instruction\<lparr>title := ''Client Initialization''\<rparr>, client_initialization]] 0) =
     [system_instruction\<lparr>title := ''Client Initialization''\<rparr>, client_initialization]"
  by code_simp

text \<open>
  C9, as the code has it: in both modes every array that existed before the call, the input
  among them, holds what it held. In alphabetical mode the result is a newly allocated array.
  In original mode the result is the input array itself, not a new one, and so holds the
  entries of the input in their order.
\<close>

theorem displayDocs_input_unchanged:
  assumes "docs < length st"
    and "displayDocs localeCompare alpha st docs = (st', out)"
  shows "take (length st) st' = st \<and> st' ! docs = st ! docs \<and>
         (alpha \<longrightarrow> out = length st \<and> length st' = Suc (length st)) \<and>
         (\<not> alpha \<longrightarrow> out = docs \<and> st' = st \<and> st' ! out = st ! docs)"
  using assms by (cases alpha) (auto simp: displayDocs_alpha displayDocs_original nth_append)

theorem displayDocs_input_unchanged_witness:
  "(0::nat) < length [KNOWLEDGE_BASE_head] \<and>
   displayDocs ordinal_compare True [KNOWLEDGE_BASE_head] 0 =
     ([KNOWLEDGE_BASE_head, KNOWLEDGE_BASE_head], 1) \<and>
   take (length [KNOWLEDGE_BASE_head]) [KNOWLEDGE_BASE_head, KNOWLEDGE_BASE_head] =
     [KNOWLEDGE_BASE_head] \<and>
   (1::nat) = length [KNOWLEDGE_BASE_head] \<and>
   displayDocs ordinal_compare False [KNOWLEDGE_BASE_head] 0 = ([KNOWLEDGE_BASE_head], 0) \<and>
   [KNOWLEDGE_BASE_head] ! 0 = KNOWLEDGE_BASE_head"
proof -
  have run: "displayDocs ordinal_compare True [KNOWLEDGE_BASE_head] 0 =
     ([KNOWLEDGE_BASE_head, KNOWLEDGE_BASE_head], 1)"
    by code_simp
  have same: "displayDocs ordinal_compare False [KNOWLEDGE_BASE_head] 0 = ([KNOWLEDGE_BASE_head], 0)"
    by code_simp
  have inside: "(0::nat) < length [KNOWLEDGE_BASE_head]"
    by simp
  from displayDocs_input_unchanged [OF inside run] displayDocs_input_unchanged [OF inside same]
    run same
  show ?thesis
    by simp
qed

text \<open>
  C9 as stated fails: in original mode the array returned is the array passed in, at an
  address that was in use before the call.
\<close>

theorem original_order_returns_input_counterexample:
  "snd (displayDocs ordinal_compare False [KNOWLEDGE_BASE_head] 0) = 0 \<and>
   \<not> length [KNOWLEDGE_BASE_head] \<le> snd (displayDocs ordinal_compare False [KNOWLEDGE_BASE_head] 0)"
  by (simp add: displayDocs_original)

section \<open>\<open>JSON.parse\<close> allocates, and what it allocates reads back\<close>

lemma JSON_parse_extends:
  "\<exists>new. snd (JSON_parse j h) = h @ new \<and> (\<forall>obj \<in> set new. \<not> is_function obj)"
  "\<exists>new. snd (parse_elements js h) = h @ new \<and> (\<forall>obj \<in> set new. \<not> is_function obj)"
  "\<exists>new. snd (parse_members ms h) = h @ new \<and> (\<forall>obj \<in> set new. \<not> is_function obj)"
proof (induction j h and js h and ms h rule: JSON_parse_parse_elements_parse_members.induct)
  case (5 js h)
  then obtain new where "snd (parse_elements js h) = h @ new" "\<forall>obj \<in> set new. \<not> is_function obj"
    by blast
  then have "snd (JSON_parse (JArray js) h) = h @ (new @ [OArray (fst (parse_elements js h))]) \<and>
      (\<forall>obj \<in> set (new @ [OArray (fst (parse_elements js h))]). \<not> is_function obj)"
    by (simp add: split_beta)
  then show ?case by blast
next
  case (6 ms h)
  then obtain new where "snd (parse_members ms h) = h @ new" "\<forall>obj \<in> set new. \<not> is_function obj"
    by blast
  then have "snd (JSON_parse (JObject ms) h) = h @ (new @ [OObject (fst (parse_members ms h))]) \<and>
      (\<forall>obj \<in> set (new @ [OObject (fst (parse_members ms h))]). \<not> is_function obj)"
    by (simp add: split_beta)
  then show ?case by blast
next
  case (8 j js h)
  obtain v h1 where first: "JSON_parse j h = (v, h1)"
    by (cases "JSON_parse j h")
  from 8(1) first obtain n1 where n1: "h1 = h @ n1" "\<forall>obj \<in> set n1. \<not> is_function obj"
    by auto
  from 8(2) [OF first [symmetric]] obtain n2 where
    n2: "snd (parse_elements js h1) = h1 @ n2" "\<forall>obj \<in> set n2. \<not> is_function obj"
    by blast
  from first n1 n2 have "snd (parse_elements (j # js) h) = h @ (n1 @ n2) \<and>
      (\<forall>obj \<in> set (n1 @ n2). \<not> is_function obj)"
    by (auto simp: split_beta)
  then show ?case by blast
next
  case (10 m ms h)
  obtain v h1 where first: "JSON_parse (snd m) h = (v, h1)"
    by (cases "JSON_parse (snd m) h")
  from 10(1) first obtain n1 where n1: "h1 = h @ n1" "\<forall>obj \<in> set n1. \<not> is_function obj"
    by auto
  from 10(2) [OF first [symmetric]] obtain n2 where
    n2: "snd (parse_members ms h1) = h1 @ n2" "\<forall>obj \<in> set n2. \<not> is_function obj"
    by blast
  from first n1 n2 have "snd (parse_members (m # ms) h) = h @ (n1 @ n2) \<and>
      (\<forall>obj \<in> set (n1 @ n2). \<not> is_function obj)"
    by (auto simp: split_beta)
  then show ?case by blast
qed simp_all

lemma JSON_parse_no_function:
  assumes "JSON_parse j h = (v, h')" and "length h \<le> i" and "i < length h'"
  shows "\<not> is_function (h' ! i)"
proof -
  from JSON_parse_extends(1) [of j h] assms(1) obtain new where
    "h' = h @ new" and "\<forall>obj \<in> set new. \<not> is_function obj"
    by auto
  with assms(2,3) show ?thesis
    by (simp add: nth_append)
qed

lemma parse_members_no_function:
  assumes "parse_members ms h = (ps, h')" and "length h \<le> i" and "i < length h'"
  shows "\<not> is_function (h' ! i)"
proof -
  from JSON_parse_extends(3) [of ms h] assms(1) obtain new where
    "h' = h @ new" and "\<forall>obj \<in> set new. \<not> is_function obj"
    by auto
  with assms(2,3) show ?thesis
    by (simp add: nth_append)
qed

lemma JSON_parse_grows:
  "JSON_parse j h = (v, h') \<Longrightarrow> length h \<le> length h'"
  "parse_elements js h = (vs, h') \<Longrightarrow> length h \<le> length h'"
  "parse_members ms h = (ps, h') \<Longrightarrow> length h \<le> length h'"
  using JSON_parse_extends(1) [of j h] JSON_parse_extends(2) [of js h]
    JSON_parse_extends(3) [of ms h]
  by auto

lemma keeps_objects_prefix: "keeps_objects n (h1 @ k) H \<Longrightarrow> keeps_objects n h1 H"
  by (auto simp: keeps_objects_def nth_append)

lemma keeps_objects_later: "keeps_objects n h' H \<Longrightarrow> n \<le> m \<Longrightarrow> keeps_objects m h' H"
  by (auto simp: keeps_objects_def)

lemma keeps_objects_last:
  assumes "keeps_objects n (h1 @ [obj]) H" and "n \<le> length h1"
  shows "\<not> length H \<le> length h1" and "H ! length h1 = obj"
  using assms by (auto simp: keeps_objects_def)

lemma closed_from_join:
  assumes older: "closed_from n h1"
    and newer: "\<forall>i \<in> {length h1..<length (h1 @ k)}.
        \<forall>a \<in> set (obj_refs ((h1 @ k) ! i)). m \<le> a \<and> a < length (h1 @ k)"
    and "n \<le> m"
  shows "closed_from n (h1 @ k)"
  unfolding closed_from_def
proof (intro ballI)
  fix i a
  assume i: "i \<in> {n..<length (h1 @ k)}" and a: "a \<in> set (obj_refs ((h1 @ k) ! i))"
  show "n \<le> a \<and> a < length (h1 @ k)"
  proof (cases "i < length h1")
    case True
    then have "(h1 @ k) ! i = h1 ! i"
      by (simp add: nth_append)
    with a have "a \<in> set (obj_refs (h1 ! i))"
      by simp
    moreover from i True have "i \<in> {n..<length h1}"
      by simp
    ultimately have "n \<le> a \<and> a < length h1"
      using older unfolding closed_from_def by blast
    then show ?thesis
      by simp
  next
    case False
    with i have "i \<in> {length h1..<length (h1 @ k)}"
      by simp
    with a newer have "m \<le> a \<and> a < length (h1 @ k)"
      by blast
    with \<open>n \<le> m\<close> show ?thesis
      by simp
  qed
qed

lemma closed_from_last:
  assumes older: "closed_from n h1"
    and refs: "\<forall>a \<in> set (obj_refs obj). n \<le> a \<and> a < length h1"
  shows "closed_from n (h1 @ [obj])"
proof (rule closed_from_join [OF older, of _ n])
  show "\<forall>i \<in> {length h1..<length (h1 @ [obj])}.
        \<forall>a \<in> set (obj_refs ((h1 @ [obj]) ! i)). n \<le> a \<and> a < length (h1 @ [obj])"
  proof (intro ballI)
    fix i a
    assume "i \<in> {length h1..<length (h1 @ [obj])}"
    then have "i = length h1"
      by simp
    moreover assume "a \<in> set (obj_refs ((h1 @ [obj]) ! i))"
    ultimately have "a \<in> set (obj_refs obj)"
      by simp
    with refs have "n \<le> a \<and> a < length h1"
      by blast
    then show "n \<le> a \<and> a < length (h1 @ [obj])"
      by simp
  qed
qed simp

lemma closed_from_append:
  assumes "closed_from n h1" and "closed_from (length h1) (h1 @ k)" and "n \<le> length h1"
  shows "closed_from n (h1 @ k)"
  using assms(1) _ assms(3)
proof (rule closed_from_join)
  from assms(2) show "\<forall>i \<in> {length h1..<length (h1 @ k)}.
        \<forall>a \<in> set (obj_refs ((h1 @ k) ! i)). length h1 \<le> a \<and> a < length (h1 @ k)"
    unfolding closed_from_def .
qed

lemma JSON_parse_refs_all:
  "\<forall>v h'. JSON_parse j h = (v, h') \<longrightarrow>
     (\<forall>a \<in> set (val_refs v). length h \<le> a \<and> a < length h') \<and> closed_from (length h) h'"
  "\<forall>vs h'. parse_elements js h = (vs, h') \<longrightarrow>
     (\<forall>a \<in> set (concat (map val_refs vs)). length h \<le> a \<and> a < length h') \<and>
     closed_from (length h) h'"
  "\<forall>ps h'. parse_members ms h = (ps, h') \<longrightarrow>
     (\<forall>a \<in> set (concat (map (\<lambda>p. val_refs (snd p)) ps)). length h \<le> a \<and> a < length h') \<and>
     closed_from (length h) h'"
proof (induction j h and js h and ms h rule: JSON_parse_parse_elements_parse_members.induct)
  case (5 js h)
  show ?case
  proof (intro allI impI)
    fix v h'
    assume run: "JSON_parse (JArray js) h = (v, h')"
    obtain vs h1 where elems: "parse_elements js h = (vs, h1)"
      by (cases "parse_elements js h")
    with run have v: "v = VRef (length h1)" and h': "h' = h1 @ [OArray vs]"
      by simp_all
    from elems have grow: "length h \<le> length h1"
      by (rule JSON_parse_grows)
    from 5 elems have
      inner: "\<forall>a \<in> set (concat (map val_refs vs)). length h \<le> a \<and> a < length h1"
      and older: "closed_from (length h) h1"
      by simp_all
    from inner have "\<forall>a \<in> set (obj_refs (OArray vs)). length h \<le> a \<and> a < length h1"
      by simp
    with older have "closed_from (length h) (h1 @ [OArray vs])"
      by (rule closed_from_last)
    with grow show "(\<forall>a \<in> set (val_refs v). length h \<le> a \<and> a < length h') \<and>
      closed_from (length h) h'"
      by (simp add: v h')
  qed
next
  case (6 ms h)
  show ?case
  proof (intro allI impI)
    fix v h'
    assume run: "JSON_parse (JObject ms) h = (v, h')"
    obtain ps h1 where membs: "parse_members ms h = (ps, h1)"
      by (cases "parse_members ms h")
    with run have v: "v = VRef (length h1)" and h': "h' = h1 @ [OObject ps]"
      by simp_all
    from membs have grow: "length h \<le> length h1"
      by (rule JSON_parse_grows)
    from 6 membs have
      inner: "\<forall>a \<in> set (concat (map (\<lambda>p. val_refs (snd p)) ps)). length h \<le> a \<and> a < length h1"
      and older: "closed_from (length h) h1"
      by simp_all
    from inner have "\<forall>a \<in> set (obj_refs (OObject ps)). length h \<le> a \<and> a < length h1"
      by simp
    with older have "closed_from (length h) (h1 @ [OObject ps])"
      by (rule closed_from_last)
    with grow show "(\<forall>a \<in> set (val_refs v). length h \<le> a \<and> a < length h') \<and>
      closed_from (length h) h'"
      by (simp add: v h')
  qed
next
  case (8 j js h)
  show ?case
  proof (intro allI impI)
    fix vs' h'
    assume run: "parse_elements (j # js) h = (vs', h')"
    obtain v h1 where first: "JSON_parse j h = (v, h1)"
      by (cases "JSON_parse j h")
    obtain vs h2 where rest: "parse_elements js h1 = (vs, h2)"
      by (cases "parse_elements js h1")
    from run first rest have vs': "vs' = v # vs" and h': "h' = h2"
      by simp_all
    from JSON_parse_extends(2) [of js h1] rest obtain k where h2: "h2 = h1 @ k"
      by auto
    from first have grow: "length h \<le> length h1"
      by (rule JSON_parse_grows)
    from 8(1) first have
      v_refs: "\<forall>a \<in> set (val_refs v). length h \<le> a \<and> a < length h1"
      and older: "closed_from (length h) h1"
      by simp_all
    from 8(2) [OF first [symmetric]] rest have
      vs_refs: "\<forall>a \<in> set (concat (map val_refs vs)). length h1 \<le> a \<and> a < length h2"
      and newer: "closed_from (length h1) h2"
      by simp_all
    from older newer grow have "closed_from (length h) h2"
      unfolding h2 by (rule closed_from_append)
    moreover have "length h \<le> a \<and> a < length h2" if "a \<in> set (concat (map val_refs (v # vs)))" for a
    proof (cases "a \<in> set (val_refs v)")
      case True
      with v_refs have "length h \<le> a \<and> a < length h1"
        by blast
      then show ?thesis
        by (simp add: h2)
    next
      case False
      with that have "a \<in> set (concat (map val_refs vs))"
        by simp
      with vs_refs have "length h1 \<le> a \<and> a < length h2"
        by blast
      with grow show ?thesis
        by simp
    qed
    ultimately show "(\<forall>a \<in> set (concat (map val_refs vs')). length h \<le> a \<and> a < length h') \<and>
      closed_from (length h) h'"
      unfolding vs' h' by blast
  qed
next
  case (10 m ms h)
  show ?case
  proof (intro allI impI)
    fix ps' h'
    assume run: "parse_members (m # ms) h = (ps', h')"
    obtain v h1 where first: "JSON_parse (snd m) h = (v, h1)"
      by (cases "JSON_parse (snd m) h")
    obtain ps h2 where rest: "parse_members ms h1 = (ps, h2)"
      by (cases "parse_members ms h1")
    from run first rest have ps': "ps' = (fst m, v) # ps" and h': "h' = h2"
      by simp_all
    from JSON_parse_extends(3) [of ms h1] rest obtain k where h2: "h2 = h1 @ k"
      by auto
    from first have grow: "length h \<le> length h1"
      by (rule JSON_parse_grows)
    from 10(1) first have
      v_refs: "\<forall>a \<in> set (val_refs v). length h \<le> a \<and> a < length h1"
      and older: "closed_from (length h) h1"
      by simp_all
    from 10(2) [OF first [symmetric]] rest have
      ps_refs: "\<forall>a \<in> set (concat (map (\<lambda>p. val_refs (snd p)) ps)). length h1 \<le> a \<and> a < length h2"
      and newer: "closed_from (length h1) h2"
      by simp_all
    from older newer grow have "closed_from (length h) h2"
      unfolding h2 by (rule closed_from_append)
    moreover have "length h \<le> a \<and> a < length h2"
      if "a \<in> set (concat (map (\<lambda>p. val_refs (snd p)) ((fst m, v) # ps)))" for a
    proof (cases "a \<in> set (val_refs v)")
      case True
      with v_refs have "length h \<le> a \<and> a < length h1"
        by blast
      then show ?thesis
        by (simp add: h2)
    next
      case False
      with that have "a \<in> set (concat (map (\<lambda>p. val_refs (snd p)) ps))"
        by simp
      with ps_refs have "length h1 \<le> a \<and> a < length h2"
        by blast
      with grow show ?thesis
        by simp
    qed
    ultimately show
      "(\<forall>a \<in> set (concat (map (\<lambda>p. val_refs (snd p)) ps')). length h \<le> a \<and> a < length h') \<and>
       closed_from (length h) h'"
      unfolding ps' h' by blast
  qed
qed (simp_all add: closed_from_def)

lemma toJSON_step_plain:
  assumes "a < length H" and "H ! a = OObject ps"
    and "\<forall>f. VRef f \<in> snd ` set ps \<longrightarrow> f < length H \<and> \<not> is_function (H ! f)"
  shows "toJSON_step H (VRef a) = Inr (VRef a)"
proof (cases "map_of ps ''toJSON''")
  case None
  with assms(1,2) show ?thesis
    by simp
next
  case (Some w)
  then have "w \<in> snd ` set ps"
    by (force dest: map_of_SomeD)
  show ?thesis
  proof (cases w)
    case (VRef f)
    with \<open>w \<in> snd ` set ps\<close> assms(3) have "f < length H" and "\<not> is_function (H ! f)"
      by auto
    with assms(1,2) Some VRef show ?thesis
      by (cases "H ! f") simp_all
  qed (use assms(1,2) Some in simp_all)
qed

lemma JSON_parse_readback_all:
  "\<forall>v h' H stack. JSON_parse j h = (v, h') \<longrightarrow> keeps_objects (length h) h' H \<longrightarrow>
     (\<forall>a \<in> set stack. length h' \<le> a) \<longrightarrow> SerializeJSONProperty H stack v = Inr (Some j)"
  "\<forall>vs h' H stack. parse_elements js h = (vs, h') \<longrightarrow> keeps_objects (length h) h' H \<longrightarrow>
     (\<forall>a \<in> set stack. length h' \<le> a) \<longrightarrow> SerializeJSONArray H stack vs = Inr js"
  "\<forall>ps h' H stack. parse_members ms h = (ps, h') \<longrightarrow> keeps_objects (length h) h' H \<longrightarrow>
     (\<forall>a \<in> set stack. length h' \<le> a) \<longrightarrow> SerializeJSONObject H stack ps = Inr ms"
proof (induction j h and js h and ms h rule: JSON_parse_parse_elements_parse_members.induct)
  case (5 js h)
  show ?case
  proof (intro allI impI)
    fix v h' H stack
    assume run: "JSON_parse (JArray js) h = (v, h')"
      and keeps: "keeps_objects (length h) h' H"
      and above: "\<forall>a \<in> set stack. length h' \<le> a"
    obtain vs h1 where elems: "parse_elements js h = (vs, h1)"
      by (cases "parse_elements js h")
    with run have v: "v = VRef (length h1)" and h': "h' = h1 @ [OArray vs]"
      by simp_all
    from elems have grow: "length h \<le> length h1"
      by (rule JSON_parse_grows)
    from keeps grow have cell: "\<not> length H \<le> length h1" "H ! length h1 = OArray vs"
      unfolding h' by (rule keeps_objects_last)+
    from above have out: "length h1 \<notin> set stack" and "\<forall>a \<in> set (length h1 # stack). length h1 \<le> a"
      unfolding h' by auto
    moreover from keeps have "keeps_objects (length h) h1 H"
      unfolding h' by (rule keeps_objects_prefix)
    ultimately have "SerializeJSONArray H (length h1 # stack) vs = Inr js"
      using 5 elems by blast
    with cell out show "SerializeJSONProperty H stack v = Inr (Some (JArray js))"
      by (simp add: v)
  qed
next
  case (6 ms h)
  show ?case
  proof (intro allI impI)
    fix v h' H stack
    assume run: "JSON_parse (JObject ms) h = (v, h')"
      and keeps: "keeps_objects (length h) h' H"
      and above: "\<forall>a \<in> set stack. length h' \<le> a"
    obtain ps h1 where membs: "parse_members ms h = (ps, h1)"
      by (cases "parse_members ms h")
    with run have v: "v = VRef (length h1)" and h': "h' = h1 @ [OObject ps]"
      by simp_all
    from membs have grow: "length h \<le> length h1"
      by (rule JSON_parse_grows)
    from keeps grow have cell: "\<not> length H \<le> length h1" "H ! length h1 = OObject ps"
      unfolding h' by (rule keeps_objects_last)+
    from above have out: "length h1 \<notin> set stack" and "\<forall>a \<in> set (length h1 # stack). length h1 \<le> a"
      unfolding h' by auto
    moreover from keeps have "keeps_objects (length h) h1 H"
      unfolding h' by (rule keeps_objects_prefix)
    ultimately have "SerializeJSONObject H (length h1 # stack) ps = Inr ms"
      using 6 membs by blast
    moreover have "toJSON_step H (VRef (length h1)) = Inr (VRef (length h1))"
    proof (rule toJSON_step_plain)
      from cell show "length h1 < length H" and "H ! length h1 = OObject ps"
        by simp_all
      show "\<forall>f. VRef f \<in> snd ` set ps \<longrightarrow> f < length H \<and> \<not> is_function (H ! f)"
      proof (intro allI impI)
        fix f
        assume "VRef f \<in> snd ` set ps"
        then have "f \<in> set (concat (map (\<lambda>p. val_refs (snd p)) ps))"
          by force
        with JSON_parse_refs_all(3) [of ms h] membs have range: "length h \<le> f" "f < length h1"
          by auto
        with keeps have "H ! f = h1 ! f" and "f < length H"
          by (auto simp: keeps_objects_def h' nth_append)
        moreover from membs range have "\<not> is_function (h1 ! f)"
          by (rule parse_members_no_function)
        ultimately show "f < length H \<and> \<not> is_function (H ! f)"
          by simp
      qed
    qed
    ultimately show "SerializeJSONProperty H stack v = Inr (Some (JObject ms))"
      using cell out by (simp add: v)
  qed
next
  case (8 j js h)
  show ?case
  proof (intro allI impI)
    fix vs' h' H stack
    assume run: "parse_elements (j # js) h = (vs', h')"
      and keeps: "keeps_objects (length h) h' H"
      and above: "\<forall>a \<in> set stack. length h' \<le> a"
    obtain v h1 where first: "JSON_parse j h = (v, h1)"
      by (cases "JSON_parse j h")
    obtain vs h2 where rest: "parse_elements js h1 = (vs, h2)"
      by (cases "parse_elements js h1")
    from run first rest have vs': "vs' = v # vs" and h': "h' = h2"
      by simp_all
    from JSON_parse_extends(2) [of js h1] rest obtain k where h2: "h2 = h1 @ k"
      by auto
    from first have grow: "length h \<le> length h1"
      by (rule JSON_parse_grows)
    from keeps have "keeps_objects (length h) h1 H"
      unfolding h' h2 by (rule keeps_objects_prefix)
    moreover from above have "\<forall>a \<in> set stack. length h1 \<le> a"
      unfolding h' h2 by auto
    ultimately have one: "SerializeJSONProperty H stack v = Inr (Some j)"
      using 8(1) first by blast
    from keeps grow have "keeps_objects (length h1) h2 H"
      unfolding h' by (rule keeps_objects_later)
    moreover from above have "\<forall>a \<in> set stack. length h2 \<le> a"
      unfolding h' .
    ultimately have "SerializeJSONArray H stack vs = Inr js"
      using 8(2) [OF first [symmetric]] rest by blast
    with one show "SerializeJSONArray H stack vs' = Inr (j # js)"
      by (simp add: vs')
  qed
next
  case (10 m ms h)
  show ?case
  proof (intro allI impI)
    fix ps' h' H stack
    assume run: "parse_members (m # ms) h = (ps', h')"
      and keeps: "keeps_objects (length h) h' H"
      and above: "\<forall>a \<in> set stack. length h' \<le> a"
    obtain v h1 where first: "JSON_parse (snd m) h = (v, h1)"
      by (cases "JSON_parse (snd m) h")
    obtain ps h2 where rest: "parse_members ms h1 = (ps, h2)"
      by (cases "parse_members ms h1")
    from run first rest have ps': "ps' = (fst m, v) # ps" and h': "h' = h2"
      by simp_all
    from JSON_parse_extends(3) [of ms h1] rest obtain k where h2: "h2 = h1 @ k"
      by auto
    from first have grow: "length h \<le> length h1"
      by (rule JSON_parse_grows)
    from keeps have "keeps_objects (length h) h1 H"
      unfolding h' h2 by (rule keeps_objects_prefix)
    moreover from above have "\<forall>a \<in> set stack. length h1 \<le> a"
      unfolding h' h2 by auto
    ultimately have one: "SerializeJSONProperty H stack v = Inr (Some (snd m))"
      using 10(1) first by blast
    from keeps grow have "keeps_objects (length h1) h2 H"
      unfolding h' by (rule keeps_objects_later)
    moreover from above have "\<forall>a \<in> set stack. length h2 \<le> a"
      unfolding h' .
    ultimately have "SerializeJSONObject H stack ps = Inr ms"
      using 10(2) [OF first [symmetric]] rest by blast
    with one show "SerializeJSONObject H stack ps' = Inr (m # ms)"
      by (simp add: ps')
  qed
qed auto

lemma JSON_parse_holds_all:
  "\<forall>v h' H. JSON_parse j h = (v, h') \<longrightarrow> keeps_objects (length h) h' H \<longrightarrow> holds_json H v j"
  "\<forall>vs h' H. parse_elements js h = (vs, h') \<longrightarrow> keeps_objects (length h) h' H \<longrightarrow>
     list_all2 (holds_json H) vs js"
  "\<forall>ps h' H. parse_members ms h = (ps, h') \<longrightarrow> keeps_objects (length h) h' H \<longrightarrow>
     list_all2 (\<lambda>p m. fst p = fst m \<and> holds_json H (snd p) (snd m)) ps ms"
proof (induction j h and js h and ms h rule: JSON_parse_parse_elements_parse_members.induct)
  case (5 js h)
  show ?case
  proof (intro allI impI)
    fix v h' H
    assume run: "JSON_parse (JArray js) h = (v, h')"
      and keeps: "keeps_objects (length h) h' H"
    obtain vs h1 where elems: "parse_elements js h = (vs, h1)"
      by (cases "parse_elements js h")
    with run have v: "v = VRef (length h1)" and h': "h' = h1 @ [OArray vs]"
      by simp_all
    from elems have grow: "length h \<le> length h1"
      by (rule JSON_parse_grows)
    from keeps grow have cell: "\<not> length H \<le> length h1" "H ! length h1 = OArray vs"
      unfolding h' by (rule keeps_objects_last)+
    from keeps have "keeps_objects (length h) h1 H"
      unfolding h' by (rule keeps_objects_prefix)
    with 5 elems have "list_all2 (holds_json H) vs js"
      by blast
    with cell show "holds_json H v (JArray js)"
      by (simp add: v)
  qed
next
  case (6 ms h)
  show ?case
  proof (intro allI impI)
    fix v h' H
    assume run: "JSON_parse (JObject ms) h = (v, h')"
      and keeps: "keeps_objects (length h) h' H"
    obtain ps h1 where membs: "parse_members ms h = (ps, h1)"
      by (cases "parse_members ms h")
    with run have v: "v = VRef (length h1)" and h': "h' = h1 @ [OObject ps]"
      by simp_all
    from membs have grow: "length h \<le> length h1"
      by (rule JSON_parse_grows)
    from keeps grow have cell: "\<not> length H \<le> length h1" "H ! length h1 = OObject ps"
      unfolding h' by (rule keeps_objects_last)+
    from keeps have "keeps_objects (length h) h1 H"
      unfolding h' by (rule keeps_objects_prefix)
    with 6 membs have "list_all2 (\<lambda>p m. fst p = fst m \<and> holds_json H (snd p) (snd m)) ps ms"
      by blast
    with cell show "holds_json H v (JObject ms)"
      by (simp add: v)
  qed
next
  case (8 j js h)
  show ?case
  proof (intro allI impI)
    fix vs' h' H
    assume run: "parse_elements (j # js) h = (vs', h')"
      and keeps: "keeps_objects (length h) h' H"
    obtain v h1 where first: "JSON_parse j h = (v, h1)"
      by (cases "JSON_parse j h")
    obtain vs h2 where rest: "parse_elements js h1 = (vs, h2)"
      by (cases "parse_elements js h1")
    from run first rest have vs': "vs' = v # vs" and h': "h' = h2"
      by simp_all
    from JSON_parse_extends(2) [of js h1] rest obtain k where h2: "h2 = h1 @ k"
      by auto
    from first have grow: "length h \<le> length h1"
      by (rule JSON_parse_grows)
    from keeps have "keeps_objects (length h) h1 H"
      unfolding h' h2 by (rule keeps_objects_prefix)
    with 8(1) first have one: "holds_json H v j"
      by blast
    from keeps grow have "keeps_objects (length h1) h2 H"
      unfolding h' by (rule keeps_objects_later)
    with 8(2) [OF first [symmetric]] rest have "list_all2 (holds_json H) vs js"
      by blast
    with one show "list_all2 (holds_json H) vs' (j # js)"
      by (simp add: vs')
  qed
next
  case (10 m ms h)
  show ?case
  proof (intro allI impI)
    fix ps' h' H
    assume run: "parse_members (m # ms) h = (ps', h')"
      and keeps: "keeps_objects (length h) h' H"
    obtain v h1 where first: "JSON_parse (snd m) h = (v, h1)"
      by (cases "JSON_parse (snd m) h")
    obtain ps h2 where rest: "parse_members ms h1 = (ps, h2)"
      by (cases "parse_members ms h1")
    from run first rest have ps': "ps' = (fst m, v) # ps" and h': "h' = h2"
      by simp_all
    from JSON_parse_extends(3) [of ms h1] rest obtain k where h2: "h2 = h1 @ k"
      by auto
    from first have grow: "length h \<le> length h1"
      by (rule JSON_parse_grows)
    from keeps have "keeps_objects (length h) h1 H"
      unfolding h' h2 by (rule keeps_objects_prefix)
    with 10(1) first have one: "holds_json H v (snd m)"
      by blast
    from keeps grow have "keeps_objects (length h1) h2 H"
      unfolding h' by (rule keeps_objects_later)
    with 10(2) [OF first [symmetric]] rest
    have "list_all2 (\<lambda>p m. fst p = fst m \<and> holds_json H (snd p) (snd m)) ps ms"
      by blast
    with one show "list_all2 (\<lambda>p m. fst p = fst m \<and> holds_json H (snd p) (snd m)) ps' (m # ms)"
      by (simp add: ps')
  qed
qed auto

lemma toJSON_step_append:
  assumes "toJSON_step h v \<noteq> Inl DanglingReference"
  shows "toJSON_step (h @ k) v = toJSON_step h v"
proof (cases v)
  case (VRef a)
  show ?thesis
  proof (cases "length h \<le> a")
    case True
    with assms VRef show ?thesis by simp
  next
    case False
    then have same: "(h @ k) ! a = h ! a" "\<not> length (h @ k) \<le> a"
      by (simp_all add: nth_append)
    show ?thesis
    proof (cases "h ! a")
      case (OObject props)
      show ?thesis
      proof (cases "map_of props ''toJSON''")
        case None
        with False same OObject VRef show ?thesis by simp
      next
        case (Some w)
        show ?thesis
        proof (cases w)
          case (VRef f)
          show ?thesis
          proof (cases "length h \<le> f")
            case True
            with assms \<open>v = VRef a\<close> False OObject Some VRef show ?thesis by simp
          next
            case inside: False
            then have "(h @ k) ! f = h ! f" "\<not> length (h @ k) \<le> f"
              by (simp_all add: nth_append)
            with \<open>v = VRef a\<close> False same OObject Some VRef inside show ?thesis by simp
          qed
        qed (use \<open>v = VRef a\<close> False same OObject Some in simp_all)
      qed
    qed (use VRef False same in simp_all)
  qed
qed simp_all

lemma Serialize_append_all:
  "SerializeJSONProperty h stack v \<noteq> Inl DanglingReference \<longrightarrow>
     SerializeJSONProperty (h @ k) stack v = SerializeJSONProperty h stack v"
  "SerializeJSONValue h stack w \<noteq> Inl DanglingReference \<longrightarrow>
     SerializeJSONValue (h @ k) stack w = SerializeJSONValue h stack w"
  "SerializeJSONArray h stack vs \<noteq> Inl DanglingReference \<longrightarrow>
     SerializeJSONArray (h @ k) stack vs = SerializeJSONArray h stack vs"
  "SerializeJSONObject h stack ps \<noteq> Inl DanglingReference \<longrightarrow>
     SerializeJSONObject (h @ k) stack ps = SerializeJSONObject h stack ps"
proof (induction h stack v and h stack w and h stack vs and h stack ps
    rule: SerializeJSONProperty_SerializeJSONValue_SerializeJSONArray_SerializeJSONObject.induct)
  case (1 h stack v)
  show ?case
  proof (cases "toJSON_step h v")
    case (Inl e)
    show ?thesis
    proof
      assume "SerializeJSONProperty h stack v \<noteq> Inl DanglingReference"
      with Inl have "toJSON_step h v \<noteq> Inl DanglingReference"
        by auto
      then have "toJSON_step (h @ k) v = toJSON_step h v"
        by (rule toJSON_step_append)
      with Inl show "SerializeJSONProperty (h @ k) stack v = SerializeJSONProperty h stack v"
        by simp
    qed
  next
    case (Inr w)
    then have "toJSON_step (h @ k) v = Inr w"
      using toJSON_step_append [of h v k] by simp
    with Inr 1 [OF Inr] show ?thesis
      by simp
  qed
next
  case (9 h stack a)
  show ?case
  proof (cases "length h \<le> a")
    case True
    then show ?thesis by simp
  next
    case False
    then have same: "(h @ k) ! a = h ! a" and inside: "\<not> length (h @ k) \<le> a"
      by (simp_all add: nth_append)
    show ?thesis
    proof (cases "h ! a")
      case (OObject props)
      with False 9(1) same inside show ?thesis
        by (cases "a \<in> set stack") (auto split: sum.splits)
    next
      case (OArray elems)
      with False 9(2) same inside show ?thesis
        by (cases "a \<in> set stack") (auto split: sum.splits)
    next
      case (OFunction b)
      with False same inside show ?thesis
        by simp
    qed
  qed
next
  case (11 h stack v vs)
  then show ?case
    by (auto split: sum.splits)
next
  case (13 h stack p ps)
  then show ?case
    by (auto split: sum.splits)
qed simp_all

lemma SerializeJSONValue_None:
  "SerializeJSONValue h stack w = Inr None \<longleftrightarrow>
     w = VUndefined \<or> w = VSymbol \<or> (\<exists>f. w = VRef f \<and> f < length h \<and> is_function (h ! f))"
proof (cases w)
  case (VRef a)
  show ?thesis
  proof (cases "length h \<le> a")
    case True
    with VRef show ?thesis by simp
  next
    case False
    with VRef show ?thesis
      by (cases "h ! a") (auto split: sum.splits)
  qed
qed simp_all

lemma SerializeJSONProperty_None: "SerializeJSONProperty h stack v = Inr None \<longleftrightarrow> no_json_form h v"
proof (cases "toJSON_step h v")
  case (Inl e)
  then show ?thesis by (simp add: no_json_form_def)
next
  case (Inr w)
  then show ?thesis
    using SerializeJSONValue_None [of h stack w]
    by (cases w) (auto simp: no_json_form_def)
qed

lemma primitive_round_trip:
  assumes "is_data_primitive v"
  shows "\<exists>j. SerializeJSONProperty h stack v = Inr (Some j) \<and>
           (\<forall>hi. JSON_parse j hi = (copied_primitive v, hi))"
proof (cases v)
  case (VNum n)
  then show ?thesis by (cases n) simp_all
qed (use assms in simp_all)

lemma SerializeJSONArray_Inr:
  assumes "SerializeJSONArray h stack vs = Inr js"
  shows "length js = length vs \<and>
         (\<forall>i < length vs.
            SerializeJSONProperty h stack (vs ! i) = Inr (if no_json_form h (vs ! i) then None else Some (js ! i)) \<and>
            (no_json_form h (vs ! i) \<longrightarrow> js ! i = JNull))"
  using assms
proof (induction vs arbitrary: js)
  case Nil
  then show ?case by simp
next
  case (Cons v vs)
  from Cons.prems obtain r js' where
    one: "SerializeJSONProperty h stack v = Inr r"
    and rest: "SerializeJSONArray h stack vs = Inr js'"
    and js: "js = (case r of None \<Rightarrow> JNull | Some j \<Rightarrow> j) # js'"
    by (auto split: sum.splits)
  from Cons.IH [OF rest] have len: "length js' = length vs"
    and tail: "\<forall>i < length vs.
            SerializeJSONProperty h stack (vs ! i) = Inr (if no_json_form h (vs ! i) then None else Some (js' ! i)) \<and>
            (no_json_form h (vs ! i) \<longrightarrow> js' ! i = JNull)"
    by simp_all
  have head: "SerializeJSONProperty h stack v = Inr (if no_json_form h v then None else Some (js ! 0)) \<and>
      (no_json_form h v \<longrightarrow> js ! 0 = JNull)"
  proof (cases r)
    case None
    with one have "no_json_form h v"
      using SerializeJSONProperty_None [of h stack v] by (simp del: SerializeJSONProperty.simps)
    with one None js show ?thesis by (simp del: SerializeJSONProperty.simps)
  next
    case (Some j)
    with one have "\<not> no_json_form h v"
      using SerializeJSONProperty_None [of h stack v] by (simp del: SerializeJSONProperty.simps)
    with one Some js show ?thesis by (simp del: SerializeJSONProperty.simps)
  qed
  show ?case
  proof (intro conjI allI impI)
    show "length js = length (v # vs)"
      using len js by simp
  next
    fix i
    assume "i < length (v # vs)"
    then show "SerializeJSONProperty h stack ((v # vs) ! i) =
        Inr (if no_json_form h ((v # vs) ! i) then None else Some (js ! i))"
      using head tail js by (cases i) (simp_all del: SerializeJSONProperty.simps)
  next
    fix i
    assume "i < length (v # vs)" and "no_json_form h ((v # vs) ! i)"
    then show "js ! i = JNull"
      using head tail js by (cases i) (simp_all del: SerializeJSONProperty.simps)
  qed
qed

lemma SerializeJSONObject_Inr:
  assumes "SerializeJSONObject h stack ps = Inr ms"
  shows "map fst ms = map fst (filter (\<lambda>p. \<not> no_json_form h (snd p)) ps) \<and>
         list_all2 (\<lambda>p m. SerializeJSONProperty h stack (snd p) = Inr (Some (snd m)))
           (filter (\<lambda>p. \<not> no_json_form h (snd p)) ps) ms"
  using assms
proof (induction ps arbitrary: ms)
  case Nil
  then show ?case by simp
next
  case (Cons p ps)
  from Cons.prems obtain r ms' where
    one: "SerializeJSONProperty h stack (snd p) = Inr r"
    and rest: "SerializeJSONObject h stack ps = Inr ms'"
    and ms: "ms = (case r of None \<Rightarrow> [] | Some j \<Rightarrow> [(fst p, j)]) @ ms'"
    by (auto split: sum.splits)
  note tail = Cons.IH [OF rest]
  show ?case
  proof (cases r)
    case None
    with one have "no_json_form h (snd p)"
      using SerializeJSONProperty_None [of h stack "snd p"] by (simp del: SerializeJSONProperty.simps)
    with None ms tail show ?thesis by (simp del: SerializeJSONProperty.simps)
  next
    case (Some j)
    with one have "\<not> no_json_form h (snd p)"
      using SerializeJSONProperty_None [of h stack "snd p"] by (simp del: SerializeJSONProperty.simps)
    with one Some ms tail show ?thesis by (simp del: SerializeJSONProperty.simps)
  qed
qed

lemma parse_elements_nth:
  assumes "parse_elements js h = (vs, h1)"
  shows "length vs = length js \<and> (\<forall>i < length js. \<exists>hi. vs ! i = fst (JSON_parse (js ! i) hi))"
  using assms
proof (induction js arbitrary: h vs h1)
  case Nil
  then show ?case by simp
next
  case (Cons j js)
  obtain v h2 where first: "JSON_parse j h = (v, h2)"
    by (cases "JSON_parse j h")
  obtain vs' h3 where rest: "parse_elements js h2 = (vs', h3)"
    by (cases "parse_elements js h2")
  from Cons.prems first rest have vs: "vs = v # vs'"
    by simp
  from Cons.IH [OF rest] have len: "length vs' = length js"
    and tail: "\<forall>i < length js. \<exists>hi. vs' ! i = fst (JSON_parse (js ! i) hi)"
    by simp_all
  have "\<exists>hi. vs ! i = fst (JSON_parse ((j # js) ! i) hi)" if "i < length (j # js)" for i
  proof (cases i)
    case 0
    with first vs have "vs ! i = fst (JSON_parse ((j # js) ! i) h)"
      by simp
    then show ?thesis ..
  next
    case (Suc k)
    with that tail vs show ?thesis by simp
  qed
  with len vs show ?case by simp
qed

lemma parse_members_nth:
  assumes "parse_members ms h = (ps, h1)"
  shows "map fst ps = map fst ms \<and>
         (\<forall>i < length ms. \<exists>hi. snd (ps ! i) = fst (JSON_parse (snd (ms ! i)) hi))"
  using assms
proof (induction ms arbitrary: h ps h1)
  case Nil
  then show ?case by simp
next
  case (Cons m ms)
  obtain v h2 where first: "JSON_parse (snd m) h = (v, h2)"
    by (cases "JSON_parse (snd m) h")
  obtain ps' h3 where rest: "parse_members ms h2 = (ps', h3)"
    by (cases "parse_members ms h2")
  from Cons.prems first rest have ps: "ps = (fst m, v) # ps'"
    by simp
  from Cons.IH [OF rest] have keys: "map fst ps' = map fst ms"
    and tail: "\<forall>i < length ms. \<exists>hi. snd (ps' ! i) = fst (JSON_parse (snd (ms ! i)) hi)"
    by simp_all
  have "\<exists>hi. snd (ps ! i) = fst (JSON_parse (snd ((m # ms) ! i)) hi)" if "i < length (m # ms)" for i
  proof (cases i)
    case 0
    with first ps have "snd (ps ! i) = fst (JSON_parse (snd ((m # ms) ! i)) h)"
      by simp
    then show ?thesis ..
  next
    case (Suc k)
    with that tail ps show ?thesis by simp
  qed
  with keys ps show ?case by simp
qed

section \<open>The record \<open>createLog\<close> makes\<close>

lemma createLog_falsy:
  "\<not> ToBoolean p \<Longrightarrow>
   createLog u now h l st m p =
     Inr (\<lparr>traceId = take 8 u, timestamp = now, layer = l, status = st, message = m,
           payload = VUndefined\<rparr>, h)"
  by (simp add: createLog_def)


lemma createLog_Inr:
  assumes "createLog u now h l st m p = Inr (entry, h')"
  shows "(\<not> ToBoolean p \<and> payload entry = VUndefined \<and> h' = h) \<or>
         (ToBoolean p \<and> (\<exists>text. JSON_stringify h p = Inr (Some text) \<and>
            JSON_parse text h = (payload entry, h')))"
    and "traceId entry = take 8 u" and "timestamp entry = now" and "layer entry = l"
    and "status entry = st" and "message entry = m"
  using assms
  by (auto simp: createLog_def split: if_splits sum.splits option.splits prod.splits)

lemma keeps_objects_update:
  "a < n \<Longrightarrow> keeps_objects n h' (h'[a := obj])"
  by (simp add: keeps_objects_def)

lemma keeps_objects_self: "keeps_objects n h' h'"
  by (simp add: keeps_objects_def)

lemma stringify_primitive:
  assumes "toJSON_step h p = Inr w" and "is_data_primitive w"
  shows "\<exists>j. JSON_stringify h p = Inr (Some j) \<and> (\<forall>hi. JSON_parse j hi = (copied_primitive w, hi))"
proof -
  from assms(2) have "toJSON_step h w = Inr w"
    by (cases w) simp_all
  with assms(1) have "JSON_stringify h p = SerializeJSONProperty h [] w"
    by (simp add: JSON_stringify_def)
  with primitive_round_trip [OF assms(2), of h "[]"] show ?thesis
    by (simp del: SerializeJSONProperty.simps)
qed

lemma stringify_array:
  assumes "toJSON_step h p = Inr (VRef a)" and "a < length h" and "h ! a = OArray elems"
    and "JSON_stringify h p = Inr (Some j)"
  shows "\<exists>js. j = JArray js \<and> SerializeJSONArray h [a] elems = Inr js"
  using assms by (auto simp: JSON_stringify_def split: sum.splits)

lemma stringify_object:
  assumes "toJSON_step h p = Inr (VRef a)" and "a < length h" and "h ! a = OObject props"
    and "JSON_stringify h p = Inr (Some j)"
  shows "\<exists>ms. j = JObject ms \<and> SerializeJSONObject h [a] props = Inr ms"
  using assms by (auto simp: JSON_stringify_def split: sum.splits)

lemma copy_of_array:
  assumes step: "toJSON_step h p = Inr (VRef a)" and a: "a < length h" and arr: "h ! a = OArray elems"
    and print: "JSON_stringify h p = Inr (Some j)"
    and parse: "JSON_parse j h = (v, h')"
  shows "\<exists>a' elems'. v = VRef a' \<and> length h \<le> a' \<and> a' < length h' \<and> h' ! a' = OArray elems' \<and>
           length elems' = length elems \<and>
           (\<forall>i < length elems.
              (no_json_form h (elems ! i) \<longrightarrow> elems' ! i = VNull) \<and>
              (is_data_primitive (elems ! i) \<longrightarrow> elems' ! i = copied_primitive (elems ! i)))"
proof -
  from stringify_array [OF step a arr print] obtain js where
    j: "j = JArray js" and ser: "SerializeJSONArray h [a] elems = Inr js"
    by blast
  obtain vs h1 where elems: "parse_elements js h = (vs, h1)"
    by (cases "parse_elements js h")
  with parse j have v: "v = VRef (length h1)" and h': "h' = h1 @ [OArray vs]"
    by simp_all
  from elems have grow: "length h \<le> length h1"
    by (rule JSON_parse_grows)
  note printed = SerializeJSONArray_Inr [OF ser]
  note parsed = parse_elements_nth [OF elems]
  have each: "(no_json_form h (elems ! i) \<longrightarrow> vs ! i = VNull) \<and>
      (is_data_primitive (elems ! i) \<longrightarrow> vs ! i = copied_primitive (elems ! i))"
    if i: "i < length elems" for i
  proof (intro conjI impI)
    from parsed printed i obtain hi where at: "vs ! i = fst (JSON_parse (js ! i) hi)"
      by auto
    {
      assume "no_json_form h (elems ! i)"
      with printed i have "js ! i = JNull"
        by blast
      with at show "vs ! i = VNull"
        by simp
    }
    {
      assume prim: "is_data_primitive (elems ! i)"
      from primitive_round_trip [OF prim, of h "[a]"] obtain j' where
        one: "SerializeJSONProperty h [a] (elems ! i) = Inr (Some j')"
        and two: "\<forall>hi. JSON_parse j' hi = (copied_primitive (elems ! i), hi)"
        by blast
      from printed i have "SerializeJSONProperty h [a] (elems ! i) =
          Inr (if no_json_form h (elems ! i) then None else Some (js ! i))"
        by blast
      with one have "js ! i = j'"
        by (simp del: SerializeJSONProperty.simps split: if_splits)
      with at two show "vs ! i = copied_primitive (elems ! i)"
        by simp
    }
  qed
  from parsed printed have "length vs = length elems"
    by simp
  with each grow show ?thesis
    unfolding v h' by (intro exI [of _ "length h1"] exI [of _ vs]) simp
qed

lemma copy_of_object:
  assumes step: "toJSON_step h p = Inr (VRef a)" and a: "a < length h" and obj: "h ! a = OObject props"
    and print: "JSON_stringify h p = Inr (Some j)"
    and parse: "JSON_parse j h = (v, h')"
  shows "\<exists>a' props'. v = VRef a' \<and> length h \<le> a' \<and> a' < length h' \<and> h' ! a' = OObject props' \<and>
           map fst props' = map fst (filter (\<lambda>q. \<not> no_json_form h (snd q)) props) \<and>
           (\<forall>i < length props'.
              is_data_primitive (snd (filter (\<lambda>q. \<not> no_json_form h (snd q)) props ! i)) \<longrightarrow>
              snd (props' ! i) =
                copied_primitive (snd (filter (\<lambda>q. \<not> no_json_form h (snd q)) props ! i)))"
proof -
  let ?kept = "filter (\<lambda>q. \<not> no_json_form h (snd q)) props"
  from stringify_object [OF step a obj print] obtain ms where
    j: "j = JObject ms" and ser: "SerializeJSONObject h [a] props = Inr ms"
    by blast
  obtain ps h1 where membs: "parse_members ms h = (ps, h1)"
    by (cases "parse_members ms h")
  with parse j have v: "v = VRef (length h1)" and h': "h' = h1 @ [OObject ps]"
    by simp_all
  from membs have grow: "length h \<le> length h1"
    by (rule JSON_parse_grows)
  from SerializeJSONObject_Inr [OF ser] have keys: "map fst ms = map fst ?kept"
    and printed: "list_all2 (\<lambda>q m. SerializeJSONProperty h [a] (snd q) = Inr (Some (snd m))) ?kept ms"
    by simp_all
  from parse_members_nth [OF membs] have keys': "map fst ps = map fst ms"
    and parsed: "\<forall>i < length ms. \<exists>hi. snd (ps ! i) = fst (JSON_parse (snd (ms ! i)) hi)"
    by simp_all
  from keys keys' have lens: "length ps = length ms" "length ms = length ?kept"
    by (metis length_map)+
  have each: "snd (ps ! i) = copied_primitive (snd (?kept ! i))"
    if i: "i < length ps" and prim: "is_data_primitive (snd (?kept ! i))" for i
  proof -
    from parsed i lens obtain hi where at: "snd (ps ! i) = fst (JSON_parse (snd (ms ! i)) hi)"
      by auto
    from primitive_round_trip [OF prim, of h "[a]"] obtain j' where
      one: "SerializeJSONProperty h [a] (snd (?kept ! i)) = Inr (Some j')"
      and two: "\<forall>hi. JSON_parse j' hi = (copied_primitive (snd (?kept ! i)), hi)"
      by blast
    from printed i lens have "SerializeJSONProperty h [a] (snd (?kept ! i)) = Inr (Some (snd (ms ! i)))"
      by (simp add: list_all2_conv_all_nth del: SerializeJSONProperty.simps)
    with one have "snd (ms ! i) = j'"
      by (simp del: SerializeJSONProperty.simps)
    with at two show ?thesis
      by simp
  qed
  from keys keys' have "map fst ps = map fst ?kept"
    by simp
  with each grow show ?thesis
    unfolding v h' by (intro exI [of _ "length h1"] exI [of _ ps]) simp
qed

text \<open>
  C10: a payload that is falsy (\<open>0\<close>, the empty string, \<open>false\<close>, \<open>null\<close> and the other falsy
  values) is stored as no payload: \<open>createLog\<close> returns the record with \<open>payload\<close> undefined
  and allocates nothing, exactly what it and \<open>addLog\<close> do when no payload is passed.
\<close>

theorem falsy_payload_stored_absent:
  assumes "\<not> ToBoolean p"
  shows "createLog u now h l st m p =
           Inr (\<lparr>traceId = take 8 u, timestamp = now, layer = l, status = st, message = m,
                 payload = VUndefined\<rparr>, h) \<and>
         createLog u now h l st m p = createLog u now h l st m VUndefined \<and>
         addLog u now s l st m p = addLog u now s l st m VUndefined"
  using assms by (simp add: createLog_falsy addLog_def)

theorem falsy_payload_stored_absent_witness:
  "\<not> ToBoolean (VNum (Finite 0)) \<and> \<not> ToBoolean (VStr []) \<and> \<not> ToBoolean (VBool False) \<and>
   \<not> ToBoolean VNull \<and>
   createLog ''9c0b4ef8-7d1a-4e6b-bb6d-6bb9bd380a11'' 5 [] UI ACCESS ''x'' (VNum (Finite 0)) =
     Inr (\<lparr>traceId = ''9c0b4ef8'', timestamp = 5, layer = UI, status = ACCESS, message = ''x'',
           payload = VUndefined\<rparr>, []) \<and>
   createLog ''9c0b4ef8-7d1a-4e6b-bb6d-6bb9bd380a11'' 5 [] UI ACCESS ''x'' (VStr []) =
     Inr (\<lparr>traceId = ''9c0b4ef8'', timestamp = 5, layer = UI, status = ACCESS, message = ''x'',
           payload = VUndefined\<rparr>, []) \<and>
   createLog ''9c0b4ef8-7d1a-4e6b-bb6d-6bb9bd380a11'' 5 [] UI ACCESS ''x'' (VBool False) =
     Inr (\<lparr>traceId = ''9c0b4ef8'', timestamp = 5, layer = UI, status = ACCESS, message = ''x'',
           payload = VUndefined\<rparr>, []) \<and>
   createLog ''9c0b4ef8-7d1a-4e6b-bb6d-6bb9bd380a11'' 5 [] UI ACCESS ''x'' VNull =
     Inr (\<lparr>traceId = ''9c0b4ef8'', timestamp = 5, layer = UI, status = ACCESS, message = ''x'',
           payload = VUndefined\<rparr>, [])"
proof -
  have falsy: "\<not> ToBoolean (VNum (Finite 0))" "\<not> ToBoolean (VStr [])"
    "\<not> ToBoolean (VBool False)" "\<not> ToBoolean VNull"
    by simp_all
  have short: "take 8 ''9c0b4ef8-7d1a-4e6b-bb6d-6bb9bd380a11'' = ''9c0b4ef8''"
    by simp
  note stored = falsy_payload_stored_absent [where u = "''9c0b4ef8-7d1a-4e6b-bb6d-6bb9bd380a11''"
      and now = 5 and h = "[]" and l = UI and st = ACCESS and m = "''x''"
      and s = "initial_state []", THEN conjunct1, unfolded short]
  from falsy stored [OF falsy(1)] stored [OF falsy(2)] stored [OF falsy(3)] stored [OF falsy(4)]
  show ?thesis
    by blast
qed

text \<open>
  C2, as the code has it. When \<open>createLog\<close> returns, it has changed no object that existed.
  For a falsy payload, and when none is passed, the stored payload is absent and nothing is
  allocated. For a truthy payload \<open>P\<close> the stored payload is \<open>JSON.parse(JSON.stringify(P))\<close>:
  the value \<open>JSON.parse\<close> builds of the JSON text \<open>j\<close> that \<open>P\<close> printed as at the call. It
  is made of objects allocated by the call only; it holds exactly the values of \<open>j\<close>, and
  prints as \<open>j\<close>, whatever is done afterwards to \<open>P\<close> and to every object that existed before
  the call. It is a copy of \<open>P\<close> as far as JSON keeps \<open>P\<close>: a data primitive (also one that a
  \<open>toJSON\<close> of \<open>P\<close> returns) is stored as it is, except that \<open>NaN\<close> and the infinities are
  stored as \<open>null\<close> and \<open>-0\<close> as \<open>0\<close>; an array is stored as a new array of the same length,
  where an element that has no JSON form is \<open>null\<close> and an element that is a data primitive
  is converted in the same way; an object is stored as a new object with the keys, in order,
  of the properties that have a JSON form, the values that are data primitives converted in
  the same way.
\<close>

theorem createLog_payload_snapshot:
  assumes "createLog u now h l st m p = Inr (entry, h')"
  shows "(\<exists>new. h' = h @ new) \<and>
         (\<not> ToBoolean p \<longrightarrow> payload entry = VUndefined \<and> h' = h) \<and>
         (p = VUndefined \<longrightarrow> payload entry = VUndefined) \<and>
         (ToBoolean p \<longrightarrow>
            (\<exists>j. JSON_stringify h p = Inr (Some j) \<and> JSON_parse j h = (payload entry, h') \<and>
                 refers_from (length h) h' (payload entry) \<and>
                 holds_json h' (payload entry) j \<and>
                 JSON_stringify h' (payload entry) = Inr (Some j) \<and>
                 (\<forall>H. keeps_objects (length h) h' H \<longrightarrow>
                      holds_json H (payload entry) j \<and>
                      JSON_stringify H (payload entry) = Inr (Some j)) \<and>
                 (\<forall>a obj. a < length h \<longrightarrow>
                      holds_json (h'[a := obj]) (payload entry) j \<and>
                      JSON_stringify (h'[a := obj]) (payload entry) = Inr (Some j))) \<and>
            (\<forall>w. toJSON_step h p = Inr w \<and> is_data_primitive w \<longrightarrow>
                 payload entry = copied_primitive w \<and> h' = h) \<and>
            (\<forall>a elems. toJSON_step h p = Inr (VRef a) \<and> a < length h \<and> h ! a = OArray elems \<longrightarrow>
               (\<exists>a' elems'. payload entry = VRef a' \<and> length h \<le> a' \<and> a' < length h' \<and>
                  h' ! a' = OArray elems' \<and> length elems' = length elems \<and>
                  (\<forall>i < length elems.
                     (no_json_form h (elems ! i) \<longrightarrow> elems' ! i = VNull) \<and>
                     (is_data_primitive (elems ! i) \<longrightarrow>
                        elems' ! i = copied_primitive (elems ! i))))) \<and>
            (\<forall>a props. toJSON_step h p = Inr (VRef a) \<and> a < length h \<and> h ! a = OObject props \<longrightarrow>
               (\<exists>a' props'. payload entry = VRef a' \<and> length h \<le> a' \<and> a' < length h' \<and>
                  h' ! a' = OObject props' \<and>
                  map fst props' = map fst (filter (\<lambda>q. \<not> no_json_form h (snd q)) props) \<and>
                  (\<forall>i < length props'.
                     is_data_primitive (snd (filter (\<lambda>q. \<not> no_json_form h (snd q)) props ! i)) \<longrightarrow>
                     snd (props' ! i) =
                       copied_primitive (snd (filter (\<lambda>q. \<not> no_json_form h (snd q)) props ! i))))))"
proof (cases "ToBoolean p")
  case False
  with createLog_Inr(1) [OF assms] show ?thesis
    by auto
next
  case True
  with createLog_Inr(1) [OF assms] obtain j
    where j: "JSON_stringify h p = Inr (Some j)" and run: "JSON_parse j h = (payload entry, h')"
    by auto
  from JSON_parse_extends(1) [of j h] run have ext: "\<exists>new. h' = h @ new"
    by auto
  from JSON_parse_refs_all(1) [of j h] run have fresh: "refers_from (length h) h' (payload entry)"
    by (simp add: refers_from_def)
  from JSON_parse_readback_all(1) [of j h] run
  have reread: "JSON_stringify H (payload entry) = Inr (Some j)"
    if "keeps_objects (length h) h' H" for H
    using that by (simp add: JSON_stringify_def del: SerializeJSONProperty.simps)
  from JSON_parse_holds_all(1) [of j h] run
  have exact: "holds_json H (payload entry) j" if "keeps_objects (length h) h' H" for H
    using that by blast
  have later: "holds_json (h'[a := obj]) (payload entry) j \<and>
      JSON_stringify (h'[a := obj]) (payload entry) = Inr (Some j)" if "a < length h" for a obj
    using that by (intro conjI exact reread keeps_objects_update)
  have whole: "\<exists>j. JSON_stringify h p = Inr (Some j) \<and> JSON_parse j h = (payload entry, h') \<and>
      refers_from (length h) h' (payload entry) \<and> holds_json h' (payload entry) j \<and>
      JSON_stringify h' (payload entry) = Inr (Some j) \<and>
      (\<forall>H. keeps_objects (length h) h' H \<longrightarrow>
          holds_json H (payload entry) j \<and> JSON_stringify H (payload entry) = Inr (Some j)) \<and>
      (\<forall>a obj. a < length h \<longrightarrow>
          holds_json (h'[a := obj]) (payload entry) j \<and>
          JSON_stringify (h'[a := obj]) (payload entry) = Inr (Some j))"
    using j run fresh exact reread later exact [OF keeps_objects_self] reread [OF keeps_objects_self]
    by blast
  have prims: "payload entry = copied_primitive w \<and> h' = h"
    if "toJSON_step h p = Inr w \<and> is_data_primitive w" for w
  proof -
    from that stringify_primitive [of h p w] obtain j' where
      "JSON_stringify h p = Inr (Some j')" and "\<forall>hi. JSON_parse j' hi = (copied_primitive w, hi)"
      by blast
    with j run show ?thesis
      by simp
  qed
  have arrays: "\<exists>a' elems'. payload entry = VRef a' \<and> length h \<le> a' \<and> a' < length h' \<and>
      h' ! a' = OArray elems' \<and> length elems' = length elems \<and>
      (\<forall>i < length elems.
         (no_json_form h (elems ! i) \<longrightarrow> elems' ! i = VNull) \<and>
         (is_data_primitive (elems ! i) \<longrightarrow> elems' ! i = copied_primitive (elems ! i)))"
    if "toJSON_step h p = Inr (VRef a) \<and> a < length h \<and> h ! a = OArray elems" for a elems
    using that copy_of_array [of h p a elems j "payload entry" h'] j run by blast
  have objects: "\<exists>a' props'. payload entry = VRef a' \<and> length h \<le> a' \<and> a' < length h' \<and>
      h' ! a' = OObject props' \<and>
      map fst props' = map fst (filter (\<lambda>q. \<not> no_json_form h (snd q)) props) \<and>
      (\<forall>i < length props'.
         is_data_primitive (snd (filter (\<lambda>q. \<not> no_json_form h (snd q)) props ! i)) \<longrightarrow>
         snd (props' ! i) =
           copied_primitive (snd (filter (\<lambda>q. \<not> no_json_form h (snd q)) props ! i)))"
    if "toJSON_step h p = Inr (VRef a) \<and> a < length h \<and> h ! a = OObject props" for a props
    using that copy_of_object [of h p a props j "payload entry" h'] j run by blast
  from True have "p \<noteq> VUndefined"
    by auto
  with True ext whole prims arrays objects show ?thesis
    by (intro conjI impI allI) (assumption | simp | blast)+
qed

theorem createLog_payload_snapshot_witness:
  "createLog (call_uuid mounted_call) (call_now mounted_call) entries_heap DATABASE INFO
     (call_message mounted_call) (VRef 0) =
     Inr (log_of mounted_call (VRef 1),
          [OObject [(''entries'', VNum (Finite 15))], OObject [(''entries'', VNum (Finite 15))]]) \<and>
   ToBoolean (VRef 0) \<and>
   JSON_stringify entries_heap (VRef 0) = Inr (Some (JObject [(''entries'', JNumber 15)])) \<and>
   holds_json
     [OObject [(''entries'', VNum (Finite 99)), (''extra'', VNull)],
      OObject [(''entries'', VNum (Finite 15))]]
     (VRef 1) (JObject [(''entries'', JNumber 15)]) \<and>
   JSON_stringify
     [OObject [(''entries'', VNum (Finite 99)), (''extra'', VNull)],
      OObject [(''entries'', VNum (Finite 15))]]
     (VRef 1) = Inr (Some (JObject [(''entries'', JNumber 15)])) \<and>
   ToBoolean (VNum PosInfinity) \<and>
   createLog (call_uuid mounted_call) (call_now mounted_call) [] DATABASE INFO
     (call_message mounted_call) (VNum PosInfinity) = Inr (log_of mounted_call VNull, []) \<and>
   payload (log_of mounted_call VNull) = copied_primitive (VNum PosInfinity) \<and>
   createLog (call_uuid read_call) (call_now read_call) entries_heap UI ACCESS
     (call_message read_call) VUndefined = Inr (log_of read_call VUndefined, entries_heap) \<and>
   payload (log_of read_call VUndefined) = VUndefined"
proof -
  have none: "createLog (call_uuid read_call) (call_now read_call) entries_heap UI ACCESS
     (call_message read_call) VUndefined = Inr (log_of read_call VUndefined, entries_heap)"
    by code_simp
  from createLog_payload_snapshot [OF none]
  have "VUndefined = VUndefined \<longrightarrow> payload (log_of read_call VUndefined) = VUndefined"
    by (elim conjE)
  then have absent: "payload (log_of read_call VUndefined) = VUndefined"
    by simp
  have inf: "createLog (call_uuid mounted_call) (call_now mounted_call) [] DATABASE INFO
     (call_message mounted_call) (VNum PosInfinity) = Inr (log_of mounted_call VNull, [])"
    by code_simp
  have truthy: "ToBoolean (VRef 0)" "ToBoolean (VNum PosInfinity)"
    by simp_all
  have prim: "toJSON_step [] (VNum PosInfinity) = Inr (VNum PosInfinity) \<and>
      is_data_primitive (VNum PosInfinity)"
    by simp
  from createLog_payload_snapshot [OF inf] truthy(2)
  have "\<forall>w. toJSON_step [] (VNum PosInfinity) = Inr w \<and> is_data_primitive w \<longrightarrow>
      payload (log_of mounted_call VNull) = copied_primitive w \<and> [] = ([] :: heap)"
    by (elim conjE) blast
  with prim have lossy: "payload (log_of mounted_call VNull) = copied_primitive (VNum PosInfinity)"
    by blast
  have run: "createLog (call_uuid mounted_call) (call_now mounted_call) entries_heap DATABASE INFO
     (call_message mounted_call) (VRef 0) =
     Inr (log_of mounted_call (VRef 1),
          [OObject [(''entries'', VNum (Finite 15))], OObject [(''entries'', VNum (Finite 15))]])"
    by code_simp
  have printed: "JSON_stringify entries_heap (VRef 0) = Inr (Some (JObject [(''entries'', JNumber 15)]))"
    by code_simp
  have old: "(0::nat) < length entries_heap"
    by (simp add: entries_heap_def)
  have stored: "payload (log_of mounted_call (VRef 1)) = VRef 1"
    by (simp add: log_of_def)
  from createLog_payload_snapshot [OF run] truthy(1)
  obtain j where j: "JSON_stringify entries_heap (VRef 0) = Inr (Some j)"
    and later: "\<forall>a obj. a < length entries_heap \<longrightarrow>
        holds_json
          ([OObject [(''entries'', VNum (Finite 15))], OObject [(''entries'', VNum (Finite 15))]]
             [a := obj])
          (payload (log_of mounted_call (VRef 1))) j \<and>
        JSON_stringify
          ([OObject [(''entries'', VNum (Finite 15))], OObject [(''entries'', VNum (Finite 15))]]
             [a := obj])
          (payload (log_of mounted_call (VRef 1))) = Inr (Some j)"
    by (elim conjE) blast
  from j printed have "j = JObject [(''entries'', JNumber 15)]"
    by simp
  with later [THEN spec, THEN spec, THEN mp, OF old,
      of "OObject [(''entries'', VNum (Finite 99)), (''extra'', VNull)]"]
  have "holds_json
     [OObject [(''entries'', VNum (Finite 99)), (''extra'', VNull)],
      OObject [(''entries'', VNum (Finite 15))]]
     (VRef 1) (JObject [(''entries'', JNumber 15)]) \<and>
   JSON_stringify
     [OObject [(''entries'', VNum (Finite 99)), (''extra'', VNull)],
      OObject [(''entries'', VNum (Finite 15))]]
     (VRef 1) = Inr (Some (JObject [(''entries'', JNumber 15)]))"
    unfolding stored by simp
  with run truthy printed inf lossy none absent show ?thesis
    by (intro conjI) simp_all
qed

text \<open>
  C2 as stated fails: the payload \<open>0\<close>, a count, is provided and the stored payload is
  absent, not a copy of \<open>0\<close>; and the array \<open>[undefined]\<close> is stored as \<open>[null]\<close>, which is
  not a copy of it.
\<close>

theorem payload_not_always_copied_counterexample:
  "createLog (call_uuid mounted_call) (call_now mounted_call) [] DATABASE INFO
     (call_message mounted_call) (VNum (Finite 0)) =
     Inr (log_of mounted_call VUndefined, []) \<and>
   createLog (call_uuid mounted_call) (call_now mounted_call) [OArray [VUndefined]] DATABASE INFO
     (call_message mounted_call) (VRef 0) =
     Inr (log_of mounted_call (VRef 1), [OArray [VUndefined], OArray [VNull]])"
  by code_simp

section \<open>Payloads that cannot be captured\<close>





























section \<open>Sequences of calls\<close>

lemma capturable_append: "capturable h p \<Longrightarrow> capturable (h @ k) p"
proof (cases "\<exists>j. JSON_stringify h p = Inr (Some j)")
  case True
  then obtain j where "JSON_stringify h p = Inr (Some j)" ..
  with Serialize_append_all(1) [of h "[]" p k] have "JSON_stringify (h @ k) p = Inr (Some j)"
    by (simp add: JSON_stringify_def del: SerializeJSONProperty.simps)
  then show ?thesis
    by (simp add: capturable_def)
next
  case False
  assume "capturable h p"
  with False have "\<not> ToBoolean p"
    by (auto simp: capturable_def split: sum.splits option.splits)
  then show ?thesis
    by (auto simp: capturable_def split: sum.splits option.splits)
qed

lemma heap_after_extends: "\<exists>new. heap_after h p = h @ new"
proof (cases "ToBoolean p")
  case False
  then show ?thesis
    by (simp add: heap_after_def)
next
  case True
  show ?thesis
  proof (cases "JSON_stringify h p")
    case (Inl e)
    with True show ?thesis
      by (simp add: heap_after_def)
  next
    case (Inr r)
    show ?thesis
    proof (cases r)
      case None
      with True Inr show ?thesis
        by (simp add: heap_after_def)
    next
      case (Some j)
      from JSON_parse_extends(1) [of j h] obtain new where "snd (JSON_parse j h) = h @ new"
        by blast
      with True Inr Some show ?thesis
        by (simp add: heap_after_def)
    qed
  qed
qed

lemma capturable_calls_initial:
  assumes "\<forall>c \<in> set calls. capturable h (call_payload c)"
  shows "capturable_calls h calls"
  using assms
proof (induction calls arbitrary: h)
  case Nil
  then show ?case by simp
next
  case (Cons c cs)
  from heap_after_extends [of h "call_payload c"] obtain new where
    new: "heap_after h (call_payload c) = h @ new" ..
  from Cons.prems have "\<forall>d \<in> set cs. capturable (h @ new) (call_payload d)"
    by (simp add: capturable_append)
  then have "capturable_calls (h @ new) cs"
    by (rule Cons.IH)
  with Cons.prems new show ?case
    by simp
qed

lemma addLog_capturable:
  assumes "capturable (heap s) (call_payload c)"
  shows "\<exists>v. addLog (call_uuid c) (call_now c) s (call_layer c) (call_status c)
           (call_message c) (call_payload c) =
           Inr (s\<lparr>logs := logs s @ [log_of c v], heap := heap_after (heap s) (call_payload c)\<rparr>)"
proof (cases "ToBoolean (call_payload c)")
  case False
  then show ?thesis
    by (intro exI [of _ VUndefined]) (simp add: addLog_def createLog_def heap_after_def log_of_def)
next
  case True
  with assms obtain j where j: "JSON_stringify (heap s) (call_payload c) = Inr (Some j)"
    by (auto simp: capturable_def split: sum.splits option.splits)
  obtain v h' where parse: "JSON_parse j (heap s) = (v, h')"
    by (cases "JSON_parse j (heap s)")
  with True j show ?thesis
    by (intro exI [of _ v]) (simp add: addLog_def createLog_def heap_after_def log_of_def)
qed

lemma addLog_not_capturable:
  assumes "\<not> capturable (heap s) (call_payload c)"
  shows "\<exists>e. addLog (call_uuid c) (call_now c) s (call_layer c) (call_status c)
           (call_message c) (call_payload c) = Inl e"
  using assms
  by (auto simp: capturable_def addLog_def createLog_def split: sum.splits option.splits)

lemma addLogs_run:
  assumes "capturable_calls (heap s) calls"
  shows "\<exists>s' vs. addLogs s calls = Inr s' \<and> length vs = length calls \<and>
           logs s' = logs s @ map2 log_of calls vs"
  using assms
proof (induction calls arbitrary: s)
  case Nil
  then show ?case by simp
next
  case (Cons c cs)
  from Cons.prems have "capturable (heap s) (call_payload c)"
    by simp
  from addLog_capturable [OF this] obtain v where
    step: "addLog (call_uuid c) (call_now c) s (call_layer c) (call_status c)
           (call_message c) (call_payload c) =
           Inr (s\<lparr>logs := logs s @ [log_of c v], heap := heap_after (heap s) (call_payload c)\<rparr>)"
    by blast
  let ?s1 = "s\<lparr>logs := logs s @ [log_of c v], heap := heap_after (heap s) (call_payload c)\<rparr>"
  from Cons.prems have "capturable_calls (heap ?s1) cs"
    by simp
  from Cons.IH [OF this] obtain s' vs where
    rest: "addLogs ?s1 cs = Inr s'" and len: "length vs = length cs"
    and out: "logs s' = logs ?s1 @ map2 log_of cs vs"
    by blast
  from step rest have "addLogs s (c # cs) = Inr s'"
    by simp
  moreover from len have "length (v # vs) = length (c # cs)"
    by simp
  moreover from out have "logs s' = logs s @ map2 log_of (c # cs) (v # vs)"
    by simp
  ultimately show ?case
    by blast
qed

lemma addLogs_raises:
  assumes "\<not> capturable_calls (heap s) calls"
  shows "\<exists>e. addLogs s calls = Inl e"
  using assms
proof (induction calls arbitrary: s)
  case Nil
  then show ?case by simp
next
  case (Cons c cs)
  show ?case
  proof (cases "capturable (heap s) (call_payload c)")
    case False
    from addLog_not_capturable [OF this] obtain e where
      "addLog (call_uuid c) (call_now c) s (call_layer c) (call_status c)
           (call_message c) (call_payload c) = Inl e" ..
    then show ?thesis
      by simp
  next
    case True
    from addLog_capturable [OF this] obtain v where
      step: "addLog (call_uuid c) (call_now c) s (call_layer c) (call_status c)
           (call_message c) (call_payload c) =
           Inr (s\<lparr>logs := logs s @ [log_of c v], heap := heap_after (heap s) (call_payload c)\<rparr>)"
      by blast
    let ?s1 = "s\<lparr>logs := logs s @ [log_of c v], heap := heap_after (heap s) (call_payload c)\<rparr>"
    from Cons.prems True have "\<not> capturable_calls (heap ?s1) cs"
      by simp
    from Cons.IH [OF this] obtain e where "addLogs ?s1 cs = Inl e" ..
    with step show ?thesis
      by simp
  qed
qed

lemma map2_log_of_fields:
  assumes "length vs = length calls"
  shows "map traceId (map2 log_of calls vs) = map (\<lambda>c. take 8 (call_uuid c)) calls"
    and "map timestamp (map2 log_of calls vs) = map call_now calls"
    and "map layer (map2 log_of calls vs) = map call_layer calls"
    and "map status (map2 log_of calls vs) = map call_status calls"
    and "map message (map2 log_of calls vs) = map call_message calls"
    and "length (map2 log_of calls vs) = length calls"
  using assms
  by (induction calls vs rule: list_induct2') (simp_all add: log_of_def)

text \<open>
  C1, as the code has it. From empty logs, a sequence of \<open>N\<close> calls, each made on the state
  the call before left: when the payload of every call can be captured at the time of that
  call, all the calls return, and the logs then hold exactly \<open>N\<close> records in call order; the
  record of a call has the first 8 characters of the UUID generated in that call as trace
  identifier, the clock reading of that call as timestamp, and the layer, status and message
  passed. So the trace identifiers are distinct exactly when those 8-character prefixes are,
  and the timestamps are non-decreasing exactly when the clock readings are. When the payload
  of some call cannot be captured at the time of that call, the sequence raises and does not
  leave \<open>N\<close> records. Payloads that can all be captured before the first call can each be
  captured at the time of its call.
\<close>

theorem addLogs_records_in_call_order:
  assumes "logs s = []"
  shows "(capturable_calls (heap s) calls \<longrightarrow>
            (\<exists>s'. addLogs s calls = Inr s' \<and> length (logs s') = length calls \<and>
               map traceId (logs s') = map (\<lambda>c. take 8 (call_uuid c)) calls \<and>
               map timestamp (logs s') = map call_now calls \<and>
               map layer (logs s') = map call_layer calls \<and>
               map status (logs s') = map call_status calls \<and>
               map message (logs s') = map call_message calls \<and>
               (distinct (map traceId (logs s')) \<longleftrightarrow>
                  distinct (map (\<lambda>c. take 8 (call_uuid c)) calls)) \<and>
               (sorted (map timestamp (logs s')) \<longleftrightarrow> sorted (map call_now calls)))) \<and>
         (\<not> capturable_calls (heap s) calls \<longrightarrow>
            (\<exists>e. addLogs s calls = Inl e) \<and> view_after s calls = None) \<and>
         ((\<forall>c \<in> set calls. capturable (heap s) (call_payload c)) \<longrightarrow>
            capturable_calls (heap s) calls)"
proof (intro conjI impI)
  assume "capturable_calls (heap s) calls"
  from addLogs_run [OF this] assms obtain s' vs where
    run: "addLogs s calls = Inr s'" and len: "length vs = length calls"
    and out: "logs s' = map2 log_of calls vs"
    by auto
  note fields = map2_log_of_fields [OF len, folded out]
  from run fields show "\<exists>s'. addLogs s calls = Inr s' \<and> length (logs s') = length calls \<and>
               map traceId (logs s') = map (\<lambda>c. take 8 (call_uuid c)) calls \<and>
               map timestamp (logs s') = map call_now calls \<and>
               map layer (logs s') = map call_layer calls \<and>
               map status (logs s') = map call_status calls \<and>
               map message (logs s') = map call_message calls \<and>
               (distinct (map traceId (logs s')) \<longleftrightarrow>
                  distinct (map (\<lambda>c. take 8 (call_uuid c)) calls)) \<and>
               (sorted (map timestamp (logs s')) \<longleftrightarrow> sorted (map call_now calls))"
    by simp
next
  assume "\<not> capturable_calls (heap s) calls"
  then show "\<exists>e. addLogs s calls = Inl e"
    by (rule addLogs_raises)
  then show "view_after s calls = None"
    by (auto simp: view_after_def)
next
  assume "\<forall>c \<in> set calls. capturable (heap s) (call_payload c)"
  then show "capturable_calls (heap s) calls"
    by (rule capturable_calls_initial)
qed

theorem addLogs_records_in_call_order_witness:
  "logs (initial_state entries_heap) = [] \<and>
   capturable_calls (heap (initial_state entries_heap)) [mounted_call, recopy_call] \<and>
   \<not> capturable (heap (initial_state entries_heap)) (call_payload recopy_call) \<and>
   (\<exists>s'. addLogs (initial_state entries_heap) [mounted_call, recopy_call] = Inr s' \<and>
      length (logs s') = 2 \<and> map traceId (logs s') = [''3b241101'', ''9c0b4ef8''] \<and>
      map timestamp (logs s') = [1700000000100, 1700000000500] \<and>
      map status (logs s') = [INFO, COPY] \<and>
      distinct (map traceId (logs s')) \<and> sorted (map timestamp (logs s'))) \<and>
   logs (initial_state cyclic_heap) = [] \<and>
   \<not> capturable_calls (heap (initial_state cyclic_heap)) [read_call, mounted_call] \<and>
   (\<exists>e. addLogs (initial_state cyclic_heap) [read_call, mounted_call] = Inl e)"
proof -
  have empty: "logs (initial_state entries_heap) = []" "logs (initial_state cyclic_heap) = []"
    by (simp_all add: initial_state_def)
  have fine: "capturable_calls (heap (initial_state entries_heap)) [mounted_call, recopy_call]"
    by code_simp
  have early: "\<not> capturable (heap (initial_state entries_heap)) (call_payload recopy_call)"
    by code_simp
  have bad: "\<not> capturable_calls (heap (initial_state cyclic_heap)) [read_call, mounted_call]"
    by code_simp
  have ids: "map (\<lambda>c. take 8 (call_uuid c)) [mounted_call, recopy_call] = [''3b241101'', ''9c0b4ef8'']"
    by (simp add: mounted_call_def recopy_call_def)
  have times: "map call_now [mounted_call, recopy_call] = [1700000000100, 1700000000500]"
    by (simp add: mounted_call_def recopy_call_def)
  have kinds: "map call_status [mounted_call, recopy_call] = [INFO, COPY]"
    by (simp add: mounted_call_def recopy_call_def)
  from addLogs_records_in_call_order [OF empty(1), THEN conjunct1, THEN mp, OF fine]
  obtain s' where
    "addLogs (initial_state entries_heap) [mounted_call, recopy_call] = Inr s'"
    "length (logs s') = length [mounted_call, recopy_call]"
    "map traceId (logs s') = map (\<lambda>c. take 8 (call_uuid c)) [mounted_call, recopy_call]"
    "map timestamp (logs s') = map call_now [mounted_call, recopy_call]"
    "map status (logs s') = map call_status [mounted_call, recopy_call]"
    by blast
  then have "addLogs (initial_state entries_heap) [mounted_call, recopy_call] = Inr s' \<and>
      length (logs s') = 2 \<and> map traceId (logs s') = [''3b241101'', ''9c0b4ef8''] \<and>
      map timestamp (logs s') = [1700000000100, 1700000000500] \<and>
      map status (logs s') = [INFO, COPY] \<and>
      distinct (map traceId (logs s')) \<and> sorted (map timestamp (logs s'))"
    unfolding ids times kinds by simp
  then have good: "\<exists>s'. addLogs (initial_state entries_heap) [mounted_call, recopy_call] = Inr s' \<and>
      length (logs s') = 2 \<and> map traceId (logs s') = [''3b241101'', ''9c0b4ef8''] \<and>
      map timestamp (logs s') = [1700000000100, 1700000000500] \<and>
      map status (logs s') = [INFO, COPY] \<and>
      distinct (map traceId (logs s')) \<and> sorted (map timestamp (logs s'))"
    by (rule exI)
  from addLogs_records_in_call_order [OF empty(2), THEN conjunct2, THEN conjunct1, THEN mp, OF bad]
  have raised: "\<exists>e. addLogs (initial_state cyclic_heap) [read_call, mounted_call] = Inl e"
    by (rule conjunct1)
  from empty(1) fine early good empty(2) bad raised show ?thesis
    by (intro conjI)
qed

text \<open>
  C1 as stated fails: two different version 4 UUIDs with the same first 8 characters give two
  records with the same trace identifier, and a clock that was set back between the calls
  gives a later record the smaller timestamp; and two calls of which the second has a payload
  that refers to itself do not leave two records.
\<close>

theorem trace_ids_and_timestamps_counterexample:
  "is_uuid_v4 (call_uuid mounted_call) \<and> is_uuid_v4 (call_uuid colliding_call) \<and>
   call_uuid mounted_call \<noteq> call_uuid colliding_call \<and>
   map_option (map traceId) (view_after (initial_state entries_heap) [mounted_call, colliding_call]) =
     Some [''3b241101'', ''3b241101''] \<and>
   map_option (map timestamp) (view_after (initial_state entries_heap) [mounted_call, colliding_call]) =
     Some [1700000000100, 1700000000050] \<and>
   view_after (initial_state cyclic_heap) [read_call, mounted_call] = None"
  by code_simp

end
